theory Spec2Isabelle
  imports Main "HOL-Library.Char_ord" "HOL-Library.List_Lexorder" "HOL-Library.Product_Lexorder"
begin

section \<open>Strings\<close>

text \<open>
  A JavaScript string is modelled as an Isabelle \<open>string\<close>, every character standing for
  the code unit of the same number (so the model covers code units below 256). Among
  those, the characters that \<open>String.prototype.trim\<close> strips (ECMAScript WhiteSpace and
  LineTerminator) are TAB, LF, VT, FF, CR, SPACE and NBSP.
\<close>

definition is_ws :: "char \<Rightarrow> bool" where
  "is_ws c = (of_char c \<in> {9, 10, 11, 12, 13, 32, 160 :: nat})"

definition trim :: "string \<Rightarrow> string" where
  "trim s = rev (dropWhile is_ws (rev (dropWhile is_ws s)))"

text \<open>A string is truthy when it is not empty; \<open>null\<close> is falsy.\<close>

definition truthy :: "string \<Rightarrow> bool" where
  "truthy s = (s \<noteq> [])"

definition truthy_opt :: "string option \<Rightarrow> bool" where
  "truthy_opt v = (case v of None \<Rightarrow> False | Some s \<Rightarrow> truthy s)"

section \<open>The Preparation page: client-side data\<close>

text \<open>
  The interfaces \<open>PrepFolder\<close>, \<open>PrepItem\<close> and \<open>FolderTreeNode\<close>. The key \<open>id\<close> of a
  folder is the field \<open>fid\<close> (of an item \<open>iid\<close>, of a job \<open>jid\<close>) and the key \<open>type\<close> of an
  item is the field \<open>item_type\<close>.
\<close>

record PrepFolder =
  fid :: string
  name :: string
  parent_id :: "string option"

text \<open>The union type \<open>'story' | 'note'\<close>.\<close>

datatype item_kind = Story | Note

text \<open>
  The form state \<open>formData\<close> of the page has the keys \<open>title\<close>, \<open>situation\<close>, \<open>task\<close>,
  \<open>action\<close>, \<open>result\<close>, \<open>content\<close> and \<open>tags\<close>; a \<open>PrepItem\<close> has the same keys and
  \<open>id\<close>, \<open>folder_id\<close>, \<open>type\<close> and \<open>updated_at\<close> besides, so it is a record that extends
  the form's.
\<close>

record formData =
  title :: string
  situation :: string
  task :: string
  action :: string
  result :: string
  content :: string
  tags :: "string list"

record PrepItem = formData +
  iid :: string
  folder_id :: string
  item_type :: item_kind
  updated_at :: string

text \<open>
  \<open>FolderTreeNode extends PrepFolder\<close>: the folder's own fields, the children and the
  expanded flag.
\<close>

datatype FolderTreeNode =
  FolderTreeNode (folder: PrepFolder) (children: "FolderTreeNode list") (isExpanded: bool)

subsection \<open>buildFolderTree\<close>

text \<open>
  \<open>buildFolderTree(parentId)\<close> filters the whole folder list for the folders whose
  \<open>parent_id\<close> is \<open>parentId\<close> and maps each of them to a node whose children are built by
  the recursive call on the folder's own id. Nothing bounds the recursion in the source, so
  the model counts the depth of the call stack with fuel: \<open>None\<close> means that the call did
  not return within that depth.
\<close>

fun buildFolderTree ::
  "nat \<Rightarrow> PrepFolder list \<Rightarrow> string set \<Rightarrow> string option \<Rightarrow> FolderTreeNode list option"
where
  "buildFolderTree 0 folders expandedFolders parentId = None"
| "buildFolderTree (Suc n) folders expandedFolders parentId =
     those (map (\<lambda>f. map_option (\<lambda>cs. FolderTreeNode f cs (fid f \<in> expandedFolders))
                       (buildFolderTree n folders expandedFolders (Some (fid f))))
                (filter (\<lambda>f. parent_id f = parentId) folders))"

text \<open>All nodes of a forest, at every depth, and their number.\<close>

fun nodes :: "FolderTreeNode \<Rightarrow> FolderTreeNode list"
  and forest_nodes :: "FolderTreeNode list \<Rightarrow> FolderTreeNode list" where
  "nodes (FolderTreeNode f cs e) = FolderTreeNode f cs e # forest_nodes cs"
| "forest_nodes [] = []"
| "forest_nodes (t # ts) = nodes t @ forest_nodes ts"

definition node_count :: "FolderTreeNode list \<Rightarrow> nat" where
  "node_count forest = length (forest_nodes forest)"

text \<open>
  The parent references of a folder list, as edges from a folder's id to its parent's id.
\<close>

definition parent_edges :: "PrepFolder list \<Rightarrow> (string \<times> string) set" where
  "parent_edges folders =
     set (concat (map (\<lambda>f. case parent_id f of None \<Rightarrow> [] | Some p \<Rightarrow> [(fid f, p)]) folders))"

definition parents_resolve :: "PrepFolder list \<Rightarrow> bool" where
  "parents_resolve folders =
     (\<forall>f \<in> set folders. case parent_id f of None \<Rightarrow> True | Some p \<Rightarrow> p \<in> set (map fid folders))"

text \<open>The folders below the folder with id \<open>q\<close>: its proper descendants.\<close>

definition descendants :: "PrepFolder list \<Rightarrow> string \<Rightarrow> PrepFolder set" where
  "descendants fs q = {f \<in> set fs. (fid f, q) \<in> (parent_edges fs)\<^sup>+}"

subsection \<open>selectedFolderItems\<close>

definition selectedFolderItems :: "PrepItem list \<Rightarrow> string option \<Rightarrow> PrepItem list" where
  "selectedFolderItems items selectedFolderId =
     filter (\<lambda>item. Some (folder_id item) = selectedFolderId) items"

section \<open>The row store as the client sees it\<close>

text \<open>
  The values that travel between the pages and the row store: \<open>null\<close>, strings and
  string arrays. A row that the store returns is a map from column names to values. An
  object literal that a page sends is the list of its keys and values in the order in which
  they are written; the spread \<open>{...a, ...b}\<close> is \<open>a @ b\<close>, and when a key occurs twice
  the later occurrence is the object's value for it. A key whose value is \<open>undefined\<close> is
  absent from the serialised payload.
\<close>

datatype jsval = Null | Str string | StrArr "string list"

type_synonym row = "string \<rightharpoonup> jsval"

type_synonym payload = "(string \<times> jsval) list"

definition object :: "payload \<Rightarrow> row" where
  "object p = map_of (rev p)"

text \<open>
  The calls of the query builder that the pages make:
  \<^item> \<open>from(t).select('*')\<close> with its \<open>.eq(column, value)\<close> filters and its optional
    \<open>.order(column, {ascending})\<close>;
  \<^item> \<open>from(t).insert([row])\<close>, with a flag for a following \<open>.select().single()\<close>;
  \<^item> \<open>from(t).update(payload).eq(column, value)\<close>;
  \<^item> \<open>from(t).delete().eq(column, value)\<close>.
\<close>

datatype request =
    Select string "(string \<times> jsval) list" "(string \<times> bool) option"
  | Insert string payload bool
  | Update string payload "(string \<times> jsval) list"
  | Delete string "(string \<times> jsval) list"

text \<open>
  The awaited \<open>{ data, error }\<close>: either an error with its \<open>message\<close> or the rows. A call
  that rejects is caught by the same \<open>catch\<close> block, so it is a \<open>Failure\<close> too.
\<close>

datatype response = Failure string | Success "row list"

text \<open>
  \<open>.single()\<close> asks for exactly one row; any other number of rows comes back as an
  error.
\<close>

definition single :: "response \<Rightarrow> string + row" where
  "single res =
     (case res of
        Failure m \<Rightarrow> Inl m
      | Success rows \<Rightarrow>
          (case rows of
             [r] \<Rightarrow> Inr r
           | _ \<Rightarrow> Inl ''JSON object requested, multiple (or no) rows returned''))"

text \<open>What a handler does that can be observed from outside: calls and toasts, in order.\<close>

datatype event = Call request | Toast_error string | Toast_success string

definition calls :: "event list \<Rightarrow> request list" where
  "calls evs = concat (map (\<lambda>e. case e of Call q \<Rightarrow> [q] | _ \<Rightarrow> []) evs)"

fun is_select :: "request \<Rightarrow> bool" where
  "is_select (Select t fs ord) = True"
| "is_select q = False"

text \<open>
  The row store itself is a parameter of every handler: \<open>exec\<close> answers a request in a
  store state and gives the next store state.
\<close>

type_synonym 'db backend = "request \<Rightarrow> 'db \<Rightarrow> response \<times> 'db"

text \<open>Reading a returned row through the interfaces.\<close>

definition str_of :: "jsval option \<Rightarrow> string" where
  "str_of v = (case v of Some (Str s) \<Rightarrow> s | _ \<Rightarrow> [])"

definition opt_of :: "jsval option \<Rightarrow> string option" where
  "opt_of v = (case v of Some (Str s) \<Rightarrow> Some s | _ \<Rightarrow> None)"

definition arr_of :: "jsval option \<Rightarrow> string list" where
  "arr_of v = (case v of Some (StrArr xs) \<Rightarrow> xs | _ \<Rightarrow> [])"

definition js_opt :: "string option \<Rightarrow> jsval" where
  "js_opt v = (case v of None \<Rightarrow> Null | Some s \<Rightarrow> Str s)"

definition PrepFolder_of :: "row \<Rightarrow> PrepFolder" where
  "PrepFolder_of r =
     \<lparr>fid = str_of (r ''id''), name = str_of (r ''name''), parent_id = opt_of (r ''parent_id'')\<rparr>"

definition PrepItem_of :: "row \<Rightarrow> PrepItem" where
  "PrepItem_of r =
     \<lparr>title = str_of (r ''title''), situation = str_of (r ''situation''),
      task = str_of (r ''task''), action = str_of (r ''action''),
      result = str_of (r ''result''), content = str_of (r ''content''),
      tags = arr_of (r ''tags''), iid = str_of (r ''id''),
      folder_id = str_of (r ''folder_id''),
      item_type = (if r ''type'' = Some (Str ''story'') then Story else Note),
      updated_at = str_of (r ''updated_at'')\<rparr>"

text \<open>\<open>{ ...formData }\<close>: the form as an object.\<close>

definition formData_object :: "formData \<Rightarrow> payload" where
  "formData_object fd =
     [(''title'', Str (title fd)), (''situation'', Str (situation fd)),
      (''task'', Str (task fd)), (''action'', Str (action fd)),
      (''result'', Str (result fd)), (''content'', Str (content fd)),
      (''tags'', StrArr (tags fd))]"

text \<open>\<open>user_id: user?.id\<close>: the key is there only when a user is signed in.\<close>

definition user_id_entry :: "string option \<Rightarrow> payload" where
  "user_id_entry user = (case user of None \<Rightarrow> [] | Some uid \<Rightarrow> [(''user_id'', Str uid)])"

section \<open>The Preparation page: state and handlers\<close>

datatype modal_mode = Folder_mode | Story_mode | Note_mode

definition mode_string :: "modal_mode \<Rightarrow> string" where
  "mode_string m = (case m of Folder_mode \<Rightarrow> ''folder'' | Story_mode \<Rightarrow> ''story'' | Note_mode \<Rightarrow> ''note'')"

record prep_state =
  folders :: "PrepFolder list"
  items :: "PrepItem list"
  isLoading :: bool
  selectedFolderId :: "string option"
  expandedFolders :: "string set"
  isModalOpen :: bool
  modalMode :: modal_mode
  editingFolder :: "PrepFolder option"
  editingItem :: "PrepItem option"
  folderName :: string
  itemTags :: string
  tagInput :: string
  formData :: formData

text \<open>
  A handler closes over the state \<open>c\<close> of the render that created it: it reads \<open>c\<close> and
  its \<open>set...\<close> calls write the pending state \<open>s\<close>. For a handler invoked by the user both
  are the current state; \<open>fetchData\<close> is also called at the end of other handlers, after
  they have written.
\<close>

definition fetchData ::
  "'db backend \<Rightarrow> string option \<Rightarrow> prep_state \<Rightarrow> prep_state \<Rightarrow> 'db \<Rightarrow> event list \<times> prep_state \<times> 'db"
where
  "fetchData exec user c s db =
     (case user of
        None \<Rightarrow> ([], s, db)
      | Some uid \<Rightarrow>
          (let q1 = Select ''prep_folders'' [(''user_id'', Str uid)] None;
               q2 = Select ''prep_items'' [(''user_id'', Str uid)] None;
               (foldersRes, db1) = exec q1 db;
               (itemsRes, db2) = exec q2 db1;
               failed = ([Call q1, Call q2, Toast_error ''Failed to fetch data''],
                         s\<lparr>isLoading := False\<rparr>, db2)
           in case foldersRes of
                Failure m \<Rightarrow> failed
              | Success frows \<Rightarrow>
                  (case itemsRes of
                     Failure m \<Rightarrow> failed
                   | Success irows \<Rightarrow>
                       (let fs = map PrepFolder_of frows;
                            s1 = s\<lparr>folders := fs, items := map PrepItem_of irows\<rparr>;
                            s2 = (if \<not> truthy_opt (selectedFolderId c) \<and> length fs > 0
                                  then (case find (\<lambda>f. \<not> truthy_opt (parent_id f)) fs of
                                          Some rootFolder \<Rightarrow> s1\<lparr>selectedFolderId := Some (fid rootFolder)\<rparr>
                                        | None \<Rightarrow> s1)
                                  else s1)
                        in ([Call q1, Call q2], s2\<lparr>isLoading := False\<rparr>, db2)))))"

definition createRootFolder ::
  "'db backend \<Rightarrow> string option \<Rightarrow> prep_state \<Rightarrow> 'db \<Rightarrow> event list \<times> prep_state \<times> 'db"
where
  "createRootFolder exec user s db =
     (case user of
        None \<Rightarrow> ([], s, db)
      | Some uid \<Rightarrow>
          (let q = Insert ''prep_folders''
                     [(''user_id'', Str uid), (''name'', Str ''Root''), (''parent_id'', Null)] True;
               (res, db1) = exec q db
           in case single res of
                Inl m \<Rightarrow> ([Call q, Toast_error ''Failed to create root folder''], s, db1)
              | Inr data \<Rightarrow>
                  ([Call q, Toast_success ''Root folder created''],
                   s\<lparr>folders := folders s @ [PrepFolder_of data],
                     selectedFolderId := Some (fid (PrepFolder_of data))\<rparr>,
                   db1)))"

definition toggleFolder :: "string \<Rightarrow> prep_state \<Rightarrow> prep_state" where
  "toggleFolder folderId s =
     (if folderId \<in> expandedFolders s
      then s\<lparr>expandedFolders := expandedFolders s - {folderId}\<rparr>
      else s\<lparr>expandedFolders := insert folderId (expandedFolders s)\<rparr>)"

definition handleOpenFolderModal :: "PrepFolder option \<Rightarrow> prep_state \<Rightarrow> prep_state" where
  "handleOpenFolderModal f s =
     (case f of
        Some fldr \<Rightarrow> s\<lparr>editingFolder := Some fldr, folderName := name fldr\<rparr>
      | None \<Rightarrow> s\<lparr>editingFolder := None, folderName := []\<rparr>)
     \<lparr>modalMode := Folder_mode, isModalOpen := True\<rparr>"

definition handleOpenItemModal ::
  "modal_mode \<Rightarrow> PrepItem option \<Rightarrow> prep_state \<Rightarrow> event list \<times> prep_state"
where
  "handleOpenItemModal type item s =
     (if \<not> truthy_opt (selectedFolderId s) then ([Toast_error ''Please select a folder first''], s)
      else ([],
        (case item of
           Some it \<Rightarrow> s\<lparr>editingItem := Some it, formData := formData.truncate it\<rparr>
         | None \<Rightarrow>
             s\<lparr>editingItem := None,
               formData := \<lparr>title = [], situation = [], task = [], action = [], result = [],
                            content = [], tags = []\<rparr>\<rparr>)
        \<lparr>modalMode := type, isModalOpen := True\<rparr>))"

definition handleCloseModal :: "prep_state \<Rightarrow> prep_state" where
  "handleCloseModal s =
     s\<lparr>isModalOpen := False, editingFolder := None, editingItem := None, tagInput := []\<rparr>"

definition handleAddTag :: "prep_state \<Rightarrow> prep_state" where
  "handleAddTag s =
     (let tag = trim (tagInput s)
      in if truthy tag \<and> tag \<notin> set (tags (formData s))
         then s\<lparr>formData := (formData s)\<lparr>tags := tags (formData s) @ [tag]\<rparr>, tagInput := []\<rparr>
         else s)"

definition handleRemoveTag :: "string \<Rightarrow> prep_state \<Rightarrow> prep_state" where
  "handleRemoveTag tagToRemove s =
     s\<lparr>formData := (formData s)\<lparr>tags := filter (\<lambda>tag. tag \<noteq> tagToRemove) (tags (formData s))\<rparr>\<rparr>"

text \<open>\<open>error.message || fallback\<close>.\<close>

definition message_or :: "string \<Rightarrow> string \<Rightarrow> string" where
  "message_or m fallback = (if truthy m then m else fallback)"

definition handleSaveFolder ::
  "'db backend \<Rightarrow> string option \<Rightarrow> string \<Rightarrow> prep_state \<Rightarrow> 'db \<Rightarrow> event list \<times> prep_state \<times> 'db"
where
  "handleSaveFolder exec user now s db =
     (if \<not> truthy (trim (folderName s)) then ([Toast_error ''Folder name is required''], s, db)
      else case editingFolder s of
        Some ef \<Rightarrow>
          (let q = Update ''prep_folders''
                     [(''name'', Str (folderName s)), (''updated_at'', Str now)]
                     [(''id'', Str (fid ef))];
               (res, db1) = exec q db
           in case res of
                Failure m \<Rightarrow> ([Call q, Toast_error (message_or m ''Failed to save folder'')], s, db1)
              | Success rows \<Rightarrow>
                  (let s1 = s\<lparr>folders :=
                               map (\<lambda>f. if fid f = fid ef then f\<lparr>name := folderName s\<rparr> else f)
                                   (folders s)\<rparr>;
                       (evs, s2, db2) = fetchData exec user s (handleCloseModal s1) db1
                   in ([Call q, Toast_success ''Folder renamed''] @ evs, s2, db2)))
      | None \<Rightarrow>
          (let q = Insert ''prep_folders''
                     (user_id_entry user @
                      [(''name'', Str (folderName s)),
                       (''parent_id'', js_opt (selectedFolderId s))]) True;
               (res, db1) = exec q db
           in case single res of
                Inl m \<Rightarrow> ([Call q, Toast_error (message_or m ''Failed to save folder'')], s, db1)
              | Inr data \<Rightarrow>
                  (let s1 = s\<lparr>folders := folders s @ [PrepFolder_of data]\<rparr>;
                       (evs, s2, db2) = fetchData exec user s (handleCloseModal s1) db1
                   in ([Call q, Toast_success ''Folder created''] @ evs, s2, db2))))"

definition handleSaveItem ::
  "'db backend \<Rightarrow> string option \<Rightarrow> string \<Rightarrow> prep_state \<Rightarrow> 'db \<Rightarrow> event list \<times> prep_state \<times> 'db"
where
  "handleSaveItem exec user now s db =
     (if \<not> truthy (trim (title (formData s))) then ([Toast_error ''Title is required''], s, db)
      else if \<not> truthy_opt (selectedFolderId s) then ([Toast_error ''Please select a folder''], s, db)
      else
        (let q = (case editingItem s of
                    Some ei \<Rightarrow>
                      Update ''prep_items''
                        (formData_object (formData s) @ [(''updated_at'', Str now)])
                        [(''id'', Str (iid ei))]
                  | None \<Rightarrow>
                      Insert ''prep_items''
                        (user_id_entry user @
                         [(''folder_id'', js_opt (selectedFolderId s)),
                          (''type'', Str (mode_string (modalMode s)))] @
                         formData_object (formData s)) False);
             (res, db1) = exec q db
         in case res of
              Failure m \<Rightarrow> ([Call q, Toast_error (message_or m ''Failed to save item'')], s, db1)
            | Success rows \<Rightarrow>
                (let (evs, s2, db2) = fetchData exec user s (handleCloseModal s) db1
                 in ([Call q,
                      Toast_success (case editingItem s of Some ei \<Rightarrow> ''Item updated''
                                                         | None \<Rightarrow> ''Item created'')] @ evs,
                     s2, db2))))"

text \<open>The boolean \<open>confirmed\<close> is the user's answer to the \<open>confirm\<close> dialog.\<close>

definition handleDeleteFolder ::
  "'db backend \<Rightarrow> string option \<Rightarrow> string \<Rightarrow> bool \<Rightarrow> prep_state \<Rightarrow> 'db \<Rightarrow> event list \<times> prep_state \<times> 'db"
where
  "handleDeleteFolder exec user id' confirmed s db =
     (if \<not> confirmed then ([], s, db)
      else
        (let q = Delete ''prep_folders'' [(''id'', Str id')];
             (res, db1) = exec q db
         in case res of
              Failure m \<Rightarrow> ([Call q, Toast_error ''Failed to delete folder''], s, db1)
            | Success rows \<Rightarrow>
                (let s1 = (if selectedFolderId s = Some id' then s\<lparr>selectedFolderId := None\<rparr> else s);
                     (evs, s2, db2) = fetchData exec user s s1 db1
                 in ([Call q, Toast_success ''Folder deleted''] @ evs, s2, db2))))"

definition handleDeleteItem ::
  "'db backend \<Rightarrow> string option \<Rightarrow> string \<Rightarrow> bool \<Rightarrow> prep_state \<Rightarrow> 'db \<Rightarrow> event list \<times> prep_state \<times> 'db"
where
  "handleDeleteItem exec user id' confirmed s db =
     (if \<not> confirmed then ([], s, db)
      else
        (let q = Delete ''prep_items'' [(''id'', Str id')];
             (res, db1) = exec q db
         in case res of
              Failure m \<Rightarrow> ([Call q, Toast_error ''Failed to delete item''], s, db1)
            | Success rows \<Rightarrow>
                (let (evs, s2, db2) = fetchData exec user s s db1
                 in ([Call q, Toast_success ''Item deleted''] @ evs, s2, db2))))"

subsection \<open>Failing calls\<close>




text \<open>A call that assigns the \<open>type\<close> column of \<open>prep_items\<close> rows.\<close>

definition sets_item_type :: "request \<Rightarrow> bool" where
  "sets_item_type q =
     (case q of Update t p fs \<Rightarrow> t = ''prep_items'' \<and> ''type'' \<in> set (map fst p) | _ \<Rightarrow> False)"

section \<open>The Dashboard page: job applications\<close>

text \<open>
  The interface \<open>Job\<close> and the page's form state, which has the keys of a job other than
  \<open>id\<close>.
\<close>

record jobFormData =
  role :: string
  company :: string
  status :: string
  applied_date :: string
  job_link :: string
  notes_job :: string

record Job = jobFormData +
  jid :: string

record dashboard_state =
  jobs :: "Job list"
  filteredJobs :: "Job list"
  isLoading_jobs :: bool
  searchQuery :: string
  statusFilter :: string
  isModalOpen_jobs :: bool
  editingJob :: "Job option"
  formData_jobs :: jobFormData

definition Job_of :: "row \<Rightarrow> Job" where
  "Job_of r =
     \<lparr>role = str_of (r ''role''), company = str_of (r ''company''),
      status = str_of (r ''status''), applied_date = str_of (r ''applied_date''),
      job_link = str_of (r ''job_link''), notes_job = str_of (r ''notes''),
      jid = str_of (r ''id'')\<rparr>"

definition jobFormData_object :: "jobFormData \<Rightarrow> payload" where
  "jobFormData_object fd =
     [(''role'', Str (role fd)), (''company'', Str (company fd)),
      (''status'', Str (status fd)), (''applied_date'', Str (applied_date fd)),
      (''job_link'', Str (job_link fd)), (''notes'', Str (notes_job fd))]"

definition fetchJobs ::
  "'db backend \<Rightarrow> dashboard_state \<Rightarrow> 'db \<Rightarrow> event list \<times> dashboard_state \<times> 'db"
where
  "fetchJobs exec s db =
     (let q = Select ''jobs'' [] (Some (''applied_date'', False));
          (res, db1) = exec q db
      in case res of
           Failure m \<Rightarrow> ([Call q, Toast_error ''Failed to fetch jobs''], s\<lparr>isLoading_jobs := False\<rparr>, db1)
         | Success rows \<Rightarrow> ([Call q], s\<lparr>jobs := map Job_of rows, isLoading_jobs := False\<rparr>, db1))"

text \<open>The parameter \<open>today\<close> is \<open>new Date().toISOString().split('T')[0]\<close>.\<close>

definition handleOpenModal :: "string \<Rightarrow> Job option \<Rightarrow> dashboard_state \<Rightarrow> dashboard_state" where
  "handleOpenModal today job s =
     (case job of
        Some j \<Rightarrow> s\<lparr>editingJob := Some j, formData_jobs := jobFormData.truncate j\<rparr>
      | None \<Rightarrow>
          s\<lparr>editingJob := None,
            formData_jobs := \<lparr>role = [], company = [], status = ''Applied'', applied_date = today,
                              job_link = [], notes_job = []\<rparr>\<rparr>)
     \<lparr>isModalOpen_jobs := True\<rparr>"

definition handleCloseModal_jobs :: "dashboard_state \<Rightarrow> dashboard_state" where
  "handleCloseModal_jobs s = s\<lparr>isModalOpen_jobs := False, editingJob := None\<rparr>"

text \<open>The parameter \<open>now\<close> is \<open>new Date().toISOString()\<close>.\<close>

definition handleSubmit ::
  "'db backend \<Rightarrow> string option \<Rightarrow> string \<Rightarrow> dashboard_state \<Rightarrow> 'db \<Rightarrow> event list \<times> dashboard_state \<times> 'db"
where
  "handleSubmit exec user now s db =
     (if \<not> truthy (trim (role (formData_jobs s))) \<or> \<not> truthy (trim (company (formData_jobs s)))
      then ([Toast_error ''Role and Company are required''], s, db)
      else
        (let q = (case editingJob s of
                    Some ej \<Rightarrow>
                      Update ''jobs''
                        (jobFormData_object (formData_jobs s) @ [(''updated_at'', Str now)])
                        [(''id'', Str (jid ej))]
                  | None \<Rightarrow>
                      Insert ''jobs''
                        (jobFormData_object (formData_jobs s) @ user_id_entry user) False);
             (res, db1) = exec q db
         in case res of
              Failure m \<Rightarrow> ([Call q, Toast_error (message_or m ''Failed to save job'')], s, db1)
            | Success rows \<Rightarrow>
                (let (evs, s2, db2) = fetchJobs exec (handleCloseModal_jobs s) db1
                 in ([Call q,
                      Toast_success (case editingJob s of Some ej \<Rightarrow> ''Job updated successfully''
                                                        | None \<Rightarrow> ''Job added successfully'')] @ evs,
                     s2, db2))))"


section \<open>The row store: the schema of the migrations\<close>

text \<open>
  A store state gives the rows of every table; a row maps its columns to values. The
  two migrations declare six tables, all with the primary key \<open>id\<close>.
\<close>

type_synonym pg_db = "string \<Rightarrow> row list"

definition tables :: "string list" where
  "tables = [''profiles'', ''jobs'', ''stories'', ''notes'', ''prep_folders'', ''prep_items'']"

definition table_columns :: "string \<Rightarrow> string list" where
  "table_columns t =
     (if t = ''profiles'' then
        [''id'', ''email'', ''full_name'', ''custom_columns'', ''theme'', ''created_at'', ''updated_at'']
      else if t = ''jobs'' then
        [''id'', ''user_id'', ''role'', ''company'', ''status'', ''applied_date'', ''job_link'',
         ''notes'', ''custom_data'', ''created_at'', ''updated_at'']
      else if t = ''stories'' then
        [''id'', ''user_id'', ''title'', ''situation'', ''task'', ''action'', ''result'', ''tags'',
         ''created_at'', ''updated_at'']
      else if t = ''notes'' then
        [''id'', ''user_id'', ''title'', ''content'', ''tags'', ''created_at'', ''updated_at'']
      else if t = ''prep_folders'' then
        [''id'', ''user_id'', ''name'', ''parent_id'', ''created_at'', ''updated_at'']
      else if t = ''prep_items'' then
        [''id'', ''user_id'', ''folder_id'', ''type'', ''title'', ''situation'', ''task'', ''action'',
         ''result'', ''content'', ''tags'', ''created_at'', ''updated_at'']
      else [])"

definition not_null_columns :: "string \<Rightarrow> string list" where
  "not_null_columns t =
     (if t = ''profiles'' then [''id'', ''email'']
      else if t = ''jobs'' then [''id'', ''user_id'', ''role'', ''company'']
      else if t = ''stories'' then [''id'', ''user_id'', ''title'']
      else if t = ''notes'' then [''id'', ''user_id'', ''title'']
      else if t = ''prep_folders'' then [''id'', ''user_id'', ''name'']
      else if t = ''prep_items'' then [''id'', ''user_id'', ''folder_id'', ''type'', ''title'']
      else [])"

text \<open>\<open>CHECK (type IN ('story', 'note'))\<close>: table, column and the admitted values.\<close>

definition check_constraints :: "(string \<times> string \<times> string list) list" where
  "check_constraints = [(''prep_items'', ''type'', [''story'', ''note''])]"

text \<open>
  \<open>REFERENCES t(id) ON DELETE CASCADE\<close>: every foreign key of the schema references a
  primary key and cascades on delete.
\<close>

record foreign_key =
  fk_table :: string
  fk_column :: string
  fk_references :: string
  fk_on_delete_cascade :: bool

definition foreign_keys :: "foreign_key list" where
  "foreign_keys =
     [\<lparr>fk_table = ''profiles'', fk_column = ''id'', fk_references = ''auth.users'', fk_on_delete_cascade = True\<rparr>,
      \<lparr>fk_table = ''jobs'', fk_column = ''user_id'', fk_references = ''profiles'', fk_on_delete_cascade = True\<rparr>,
      \<lparr>fk_table = ''stories'', fk_column = ''user_id'', fk_references = ''profiles'', fk_on_delete_cascade = True\<rparr>,
      \<lparr>fk_table = ''notes'', fk_column = ''user_id'', fk_references = ''profiles'', fk_on_delete_cascade = True\<rparr>,
      \<lparr>fk_table = ''prep_folders'', fk_column = ''user_id'', fk_references = ''profiles'', fk_on_delete_cascade = True\<rparr>,
      \<lparr>fk_table = ''prep_folders'', fk_column = ''parent_id'', fk_references = ''prep_folders'', fk_on_delete_cascade = True\<rparr>,
      \<lparr>fk_table = ''prep_items'', fk_column = ''user_id'', fk_references = ''profiles'', fk_on_delete_cascade = True\<rparr>,
      \<lparr>fk_table = ''prep_items'', fk_column = ''folder_id'', fk_references = ''prep_folders'', fk_on_delete_cascade = True\<rparr>]"

text \<open>
  The column defaults. The values that the store generates at the time of the insert
  (\<open>gen_random_uuid()\<close>, \<open>now()\<close>, \<open>CURRENT_DATE\<close>) are parameters.
\<close>

record generated =
  gen_random_uuid :: string
  gen_now :: string
  gen_current_date :: string

definition column_defaults :: "generated \<Rightarrow> string \<Rightarrow> row" where
  "column_defaults g t =
     (let stamps = [''created_at'' \<mapsto> Str (gen_now g), ''updated_at'' \<mapsto> Str (gen_now g)];
          new_id = [''id'' \<mapsto> Str (gen_random_uuid g)];
          star = [''situation'' \<mapsto> Str [], ''task'' \<mapsto> Str [], ''action'' \<mapsto> Str [],
                  ''result'' \<mapsto> Str []]
      in if t = ''profiles'' then
           stamps ++ [''full_name'' \<mapsto> Str [], ''custom_columns'' \<mapsto> Str ''[]'', ''theme'' \<mapsto> Str ''light'']
         else if t = ''jobs'' then
           stamps ++ new_id ++
           [''status'' \<mapsto> Str ''Applied'', ''applied_date'' \<mapsto> Str (gen_current_date g),
            ''job_link'' \<mapsto> Str [], ''notes'' \<mapsto> Str [], ''custom_data'' \<mapsto> Str ''{}'']
         else if t = ''stories'' then stamps ++ new_id ++ star ++ [''tags'' \<mapsto> StrArr []]
         else if t = ''notes'' then stamps ++ new_id ++ [''content'' \<mapsto> Str [], ''tags'' \<mapsto> StrArr []]
         else if t = ''prep_folders'' then stamps ++ new_id
         else if t = ''prep_items'' then
           stamps ++ new_id ++ star ++ [''content'' \<mapsto> Str [], ''tags'' \<mapsto> StrArr []]
         else Map.empty)"

subsection \<open>Row level security\<close>

text \<open>
  Row level security is enabled on all six tables, and each has four policies, one per
  command, all \<open>TO authenticated\<close> and all of the form \<open>auth.uid() = column\<close>: a policy is
  recorded with the column of its \<open>USING\<close> clause and the column of its \<open>WITH CHECK\<close> clause.
\<close>

datatype command = SELECT | INSERT | UPDATE | DELETE

record policy =
  policy_name :: string
  policy_table :: string
  policy_command :: command
  policy_using :: "string option"
  policy_with_check :: "string option"

definition own_rows_policies :: "string \<Rightarrow> string \<Rightarrow> string list \<Rightarrow> policy list" where
  "own_rows_policies t col names =
     [\<lparr>policy_name = names ! 0, policy_table = t, policy_command = SELECT,
       policy_using = Some col, policy_with_check = None\<rparr>,
      \<lparr>policy_name = names ! 1, policy_table = t, policy_command = INSERT,
       policy_using = None, policy_with_check = Some col\<rparr>,
      \<lparr>policy_name = names ! 2, policy_table = t, policy_command = UPDATE,
       policy_using = Some col, policy_with_check = Some col\<rparr>,
      \<lparr>policy_name = names ! 3, policy_table = t, policy_command = DELETE,
       policy_using = Some col, policy_with_check = None\<rparr>]"

definition policies :: "policy list" where
  "policies =
     own_rows_policies ''profiles'' ''id''
       [''Users can view own profile'', ''Users can insert own profile'',
        ''Users can update own profile'', ''Users can delete own profile''] @
     own_rows_policies ''jobs'' ''user_id''
       [''Users can view own jobs'', ''Users can insert own jobs'',
        ''Users can update own jobs'', ''Users can delete own jobs''] @
     own_rows_policies ''stories'' ''user_id''
       [''Users can view own stories'', ''Users can insert own stories'',
        ''Users can update own stories'', ''Users can delete own stories''] @
     own_rows_policies ''notes'' ''user_id''
       [''Users can view own notes'', ''Users can insert own notes'',
        ''Users can update own notes'', ''Users can delete own notes''] @
     own_rows_policies ''prep_folders'' ''user_id''
       [''Users can view own folders'', ''Users can insert own folders'',
        ''Users can update own folders'', ''Users can delete own folders''] @
     own_rows_policies ''prep_items'' ''user_id''
       [''Users can view own prep items'', ''Users can insert own prep items'',
        ''Users can update own prep items'', ''Users can delete own prep items'']"

text \<open>
  The caller of a request is \<open>Some u\<close> for the role \<open>authenticated\<close> with \<open>auth.uid() = u\<close>
  and \<open>None\<close> for an anonymous caller, to whom no policy applies. A row passes when some
  policy of the table for the command admits it.
\<close>

definition auth_uid_is :: "string option \<Rightarrow> string \<Rightarrow> row \<Rightarrow> bool" where
  "auth_uid_is caller col r = (case caller of None \<Rightarrow> False | Some u \<Rightarrow> r col = Some (Str u))"

definition rls_using :: "string option \<Rightarrow> string \<Rightarrow> command \<Rightarrow> row \<Rightarrow> bool" where
  "rls_using caller t cmd r =
     (\<exists>p \<in> set policies. policy_table p = t \<and> policy_command p = cmd \<and>
        (case policy_using p of Some col \<Rightarrow> auth_uid_is caller col r | None \<Rightarrow> False))"

definition rls_with_check :: "string option \<Rightarrow> string \<Rightarrow> command \<Rightarrow> row \<Rightarrow> bool" where
  "rls_with_check caller t cmd r =
     (\<exists>p \<in> set policies. policy_table p = t \<and> policy_command p = cmd \<and>
        (case policy_with_check p of Some col \<Rightarrow> auth_uid_is caller col r | None \<Rightarrow> False))"

text \<open>The column that holds the owner of a row: \<open>profiles.id\<close>, and \<open>user_id\<close> elsewhere.\<close>

definition owner_column :: "string \<Rightarrow> string" where
  "owner_column t = (if t = ''profiles'' then ''id'' else ''user_id'')"

subsection \<open>The statements\<close>

text \<open>SQL equality: a comparison with \<open>NULL\<close> is never true.\<close>

definition sql_eq :: "jsval \<Rightarrow> jsval \<Rightarrow> bool" where
  "sql_eq a b = (a \<noteq> Null \<and> b \<noteq> Null \<and> a = b)"

definition column_eq :: "row \<Rightarrow> string \<Rightarrow> jsval \<Rightarrow> bool" where
  "column_eq r col v = (case r col of None \<Rightarrow> False | Some x \<Rightarrow> sql_eq x v)"

definition matches :: "(string \<times> jsval) list \<Rightarrow> row \<Rightarrow> bool" where
  "matches fs r = (\<forall>(col, v) \<in> set fs. column_eq r col v)"

definition key_of :: "row \<Rightarrow> jsval" where
  "key_of r = (case r ''id'' of None \<Rightarrow> Null | Some v \<Rightarrow> v)"

definition pg_select :: "string option \<Rightarrow> string \<Rightarrow> (string \<times> jsval) list \<Rightarrow> pg_db \<Rightarrow> row list" where
  "pg_select caller t fs db = filter (\<lambda>r. rls_using caller t SELECT r \<and> matches fs r) (db t)"

text \<open>
  \<open>ORDER BY column\<close>, ascending with \<open>NULL\<close> last or descending with \<open>NULL\<close> first. Among rows
  with equal keys the store promises no order; the model keeps them as the sort leaves
  them.
\<close>

definition order_key :: "string \<Rightarrow> row \<Rightarrow> bool \<times> string" where
  "order_key col r = (case r col of Some (Str s) \<Rightarrow> (False, s) | _ \<Rightarrow> (True, []))"

definition order_by :: "(string \<times> bool) option \<Rightarrow> row list \<Rightarrow> row list" where
  "order_by ord rows =
     (case ord of
        None \<Rightarrow> rows
      | Some (col, ascending) \<Rightarrow>
          (if ascending then sort_key (order_key col) rows else rev (sort_key (order_key col) rows)))"

text \<open>The constraints on a row that is to be stored.\<close>

definition not_null_ok :: "string \<Rightarrow> row \<Rightarrow> bool" where
  "not_null_ok t r = (\<forall>col \<in> set (not_null_columns t). case r col of None \<Rightarrow> False | Some v \<Rightarrow> v \<noteq> Null)"

definition check_ok :: "string \<Rightarrow> row \<Rightarrow> bool" where
  "check_ok t r =
     (\<forall>(t', col, admitted) \<in> set check_constraints.
        t' = t \<longrightarrow> (case r col of Some (Str s) \<Rightarrow> s \<in> set admitted | Some (StrArr xs) \<Rightarrow> False | _ \<Rightarrow> True))"

definition fk_ok :: "pg_db \<Rightarrow> string \<Rightarrow> row \<Rightarrow> bool" where
  "fk_ok db t r =
     (\<forall>fk \<in> set foreign_keys.
        fk_table fk = t \<longrightarrow>
        (case r (fk_column fk) of
           None \<Rightarrow> True
         | Some v \<Rightarrow> v = Null \<or> (\<exists>p \<in> set (db (fk_references fk)). column_eq p ''id'' v)))"

definition constraints_ok :: "pg_db \<Rightarrow> string \<Rightarrow> bool" where
  "constraints_ok db t =
     (distinct (map key_of (db t)) \<and>
      (\<forall>r \<in> set (db t). not_null_ok t r \<and> check_ok t r) \<and>
      (\<forall>t' \<in> set tables. \<forall>r \<in> set (db t'). fk_ok db t' r))"

text \<open>
  \<open>INSERT\<close>: the row is the payload over the defaults, the columns that neither gives
  being \<open>NULL\<close>. The statement fails, and stores nothing, when the payload names a column
  that the table does not have, when no insert policy admits the row or when a
  constraint is violated.
\<close>

definition null_row :: "string \<Rightarrow> row" where
  "null_row t = map_of (map (\<lambda>col. (col, Null)) (table_columns t))"

definition pg_insert :: "string option \<Rightarrow> generated \<Rightarrow> string \<Rightarrow> payload \<Rightarrow> pg_db \<Rightarrow> response \<times> pg_db" where
  "pg_insert caller g t p db =
     (let r = null_row t ++ column_defaults g t ++ object p;
          db' = db(t := db t @ [r])
      in if set (map fst p) \<subseteq> set (table_columns t) \<and> rls_with_check caller t INSERT r \<and>
            constraints_ok db' t
         then (Success [r], db')
         else (Failure ''insert rejected'', db))"

text \<open>
  \<open>UPDATE ... WHERE\<close>: the rows that the filters match and that the policies let the caller
  see and update get the payload's columns; every other column keeps its value.
\<close>

definition pg_update ::
  "string option \<Rightarrow> string \<Rightarrow> payload \<Rightarrow> (string \<times> jsval) list \<Rightarrow> pg_db \<Rightarrow> response \<times> pg_db"
where
  "pg_update caller t p fs db =
     (let hit = (\<lambda>r. rls_using caller t SELECT r \<and> rls_using caller t UPDATE r \<and> matches fs r);
          db' = db(t := map (\<lambda>r. if hit r then r ++ object p else r) (db t))
      in if set (map fst p) \<subseteq> set (table_columns t) \<and>
            (\<forall>r \<in> set (db t). hit r \<longrightarrow> rls_with_check caller t UPDATE (r ++ object p)) \<and>
            constraints_ok db' t
         then (Success [], db')
         else (Failure ''update rejected'', db))"

text \<open>
  \<open>DELETE ... WHERE\<close> with \<open>ON DELETE CASCADE\<close>. The worklist holds the keys of deleted
  rows with their tables; for each, the rows that reference it through a cascading
  foreign key are deleted in turn, whoever owns them (the policies guard only the
  statement's own rows).
\<close>

definition referencing :: "string \<Rightarrow> foreign_key list" where
  "referencing t = filter (\<lambda>fk. fk_references fk = t \<and> fk_on_delete_cascade fk) foreign_keys"

definition refers :: "string \<Rightarrow> jsval \<Rightarrow> string \<Rightarrow> row \<Rightarrow> bool" where
  "refers t k t' r = (\<exists>fk \<in> set (referencing t). fk_table fk = t' \<and> column_eq r (fk_column fk) k)"

definition total_rows :: "pg_db \<Rightarrow> nat" where
  "total_rows db = sum_list (map (\<lambda>t. length (db t)) tables)"

function cascade :: "(string \<times> jsval) list \<Rightarrow> pg_db \<Rightarrow> pg_db" where
  "cascade [] db = db"
| "cascade ((t, k) # work) db =
     cascade (work @ concat (map (\<lambda>t'. map (\<lambda>r. (t', key_of r)) (filter (refers t k t') (db t'))) tables))
             (\<lambda>t'. filter (\<lambda>r. \<not> refers t k t' r) (db t'))"
  by pat_completeness auto

termination cascade
proof (relation "measure (\<lambda>(work, db). total_rows db + length work)")
  show "wf (measure (\<lambda>(work, db). total_rows db + length work))" by simp
next
  fix t :: string and k work and db :: pg_db
  let ?new = "\<lambda>ts. concat (map (\<lambda>t'. map (\<lambda>r. (t', key_of r)) (filter (refers t k t') (db t'))) ts)"
  let ?db' = "\<lambda>t'. filter (\<lambda>r. \<not> refers t k t' r) (db t')"
  have "sum_list (map (\<lambda>t'. length (?db' t')) ts) + length (?new ts) =
        sum_list (map (\<lambda>t'. length (db t')) ts)" for ts
  proof (induction ts)
    case Nil then show ?case by simp
  next
    case (Cons a ts)
    have "length (?db' a) + length (filter (refers t k a) (db a)) = length (db a)"
      using sum_length_filter_compl [of "refers t k a" "db a"] by linarith
    with Cons show ?case by simp
  qed
  then have "total_rows ?db' + length (?new tables) = total_rows db"
    by (simp only: total_rows_def)
  then show "((work @ ?new tables, ?db'), (t, k) # work, db) \<in>
               measure (\<lambda>(work, db). total_rows db + length work)"
    by simp
qed

definition pg_delete ::
  "string option \<Rightarrow> string \<Rightarrow> (string \<times> jsval) list \<Rightarrow> pg_db \<Rightarrow> response \<times> pg_db"
where
  "pg_delete caller t fs db =
     (let hit = (\<lambda>r. rls_using caller t SELECT r \<and> rls_using caller t DELETE r \<and> matches fs r)
      in (Success [],
          cascade (map (\<lambda>r. (t, key_of r)) (filter hit (db t)))
                  (db(t := filter (\<lambda>r. \<not> hit r) (db t)))))"

text \<open>The row store of the migrations as a backend of the pages.\<close>

definition pg_exec :: "string option \<Rightarrow> generated \<Rightarrow> pg_db backend" where
  "pg_exec caller g q db =
     (case q of
        Select t fs ord \<Rightarrow>
          (if t \<in> set tables then (Success (order_by ord (pg_select caller t fs db)), db)
           else (Failure ''relation does not exist'', db))
      | Insert t payload returning \<Rightarrow>
          (if t \<in> set tables then
             (case pg_insert caller g t payload db of
                (Success rows, db') \<Rightarrow> (Success (if returning then rows else []), db')
              | (Failure m, db') \<Rightarrow> (Failure m, db'))
           else (Failure ''relation does not exist'', db))
      | Update t payload fs \<Rightarrow>
          (if t \<in> set tables then pg_update caller t payload fs db
           else (Failure ''relation does not exist'', db))
      | Delete t fs \<Rightarrow>
          (if t \<in> set tables then pg_delete caller t fs db
           else (Failure ''relation does not exist'', db)))"

text \<open>
  The folders of a store state as a graph on keys, with an edge from a folder's key to its
  parent's, and the keys that lie in the subtree of a key \<open>x\<close>: \<open>x\<close> itself and the keys
  from which parent references lead to \<open>x\<close>.
\<close>

definition parent_edge :: "row \<Rightarrow> (jsval \<times> jsval) list" where
  "parent_edge r =
     (case r ''parent_id'' of None \<Rightarrow> [] | Some p \<Rightarrow> if p = Null then [] else [(key_of r, p)])"

definition edges_of :: "row list \<Rightarrow> (jsval \<times> jsval) set" where
  "edges_of rows = set (concat (map parent_edge rows))"

definition folder_edges :: "pg_db \<Rightarrow> (jsval \<times> jsval) set" where
  "folder_edges db = edges_of (db ''prep_folders'')"

definition in_subtree :: "pg_db \<Rightarrow> jsval \<Rightarrow> jsval \<Rightarrow> bool" where
  "in_subtree db x v = (v = x \<or> (v, x) \<in> (folder_edges db)\<^sup>+)"

text \<open>
  For the worklist of a cascade: the folder keys that it holds, and the rows whose column
  \<open>col\<close> references a key from which parent references lead to a key of \<open>K\<close>.
\<close>

definition pending :: "(string \<times> jsval) list \<Rightarrow> jsval set" where
  "pending work = {k. (''prep_folders'', k) \<in> set work}"

definition below :: "pg_db \<Rightarrow> jsval set \<Rightarrow> string \<Rightarrow> row \<Rightarrow> bool" where
  "below db K col r = (\<exists>v. column_eq r col v \<and> (\<exists>k \<in> K. (v, k) \<in> (folder_edges db)\<^sup>*))"

section \<open>Example data\<close>

text \<open>
  The folders \<open>A\<close>, \<open>B\<close> in \<open>A\<close> and \<open>C\<close> in \<open>B\<close>, and two folders that are each
  other's parent.
\<close>

definition folderA :: PrepFolder where "folderA = \<lparr>fid = ''A'', name = ''A'', parent_id = None\<rparr>"

definition folderB :: PrepFolder where "folderB = \<lparr>fid = ''B'', name = ''B'', parent_id = Some ''A''\<rparr>"

definition folderC :: PrepFolder where "folderC = \<lparr>fid = ''C'', name = ''C'', parent_id = Some ''B''\<rparr>"

definition loopA :: PrepFolder where "loopA = \<lparr>fid = ''A'', name = ''A'', parent_id = Some ''B''\<rparr>"

definition loopB :: PrepFolder where "loopB = \<lparr>fid = ''B'', name = ''B'', parent_id = Some ''A''\<rparr>"

text \<open>
  An example store: the user \<open>u1\<close> with the folders \<open>A\<close>, \<open>B\<close> in \<open>A\<close>, \<open>C\<close> in \<open>B\<close>, and
  the item \<open>x\<close> in \<open>B\<close>.
\<close>

definition folder_row :: "string \<Rightarrow> string \<Rightarrow> jsval \<Rightarrow> row" where
  "folder_row i u p =
     [''id'' \<mapsto> Str i, ''user_id'' \<mapsto> Str u, ''name'' \<mapsto> Str i, ''parent_id'' \<mapsto> p,
      ''created_at'' \<mapsto> Str ''t0'', ''updated_at'' \<mapsto> Str ''t0'']"

definition item_row :: "string \<Rightarrow> string \<Rightarrow> string \<Rightarrow> string \<Rightarrow> row" where
  "item_row i u f ty =
     [''id'' \<mapsto> Str i, ''user_id'' \<mapsto> Str u, ''folder_id'' \<mapsto> Str f, ''type'' \<mapsto> Str ty,
      ''title'' \<mapsto> Str i, ''situation'' \<mapsto> Str [], ''task'' \<mapsto> Str [], ''action'' \<mapsto> Str [],
      ''result'' \<mapsto> Str [], ''content'' \<mapsto> Str [], ''tags'' \<mapsto> StrArr [],
      ''created_at'' \<mapsto> Str ''t0'', ''updated_at'' \<mapsto> Str ''t0'']"

definition example_db :: pg_db where
  "example_db =
     (\<lambda>t. [])(''auth.users'' := [[''id'' \<mapsto> Str ''u1'']],
              ''profiles'' := [[''id'' \<mapsto> Str ''u1'', ''email'' \<mapsto> Str ''u1@example.org'']],
              ''prep_folders'' := [folder_row ''A'' ''u1'' Null, folder_row ''B'' ''u1'' (Str ''A''),
                                   folder_row ''C'' ''u1'' (Str ''B'')],
              ''prep_items'' := [item_row ''x'' ''u1'' ''B'' ''story''])"

text \<open>The item \<open>x\<close> of folder \<open>B\<close>.\<close>

definition itemX :: PrepItem where
  "itemX = \<lparr>title = ''x'', situation = [], task = [], action = [], result = [], content = [],
            tags = [], iid = ''x'', folder_id = ''B'', item_type = Story, updated_at = ''t0''\<rparr>"

text \<open>The state of the Preparation page when it is mounted (the initial values of \<open>useState\<close>).\<close>

definition emptyForm :: formData where
  "emptyForm = \<lparr>title = [], situation = [], task = [], action = [], result = [], content = [], tags = []\<rparr>"

definition initial_state :: prep_state where
  "initial_state =
     \<lparr>folders = [], items = [], isLoading = True, selectedFolderId = None, expandedFolders = {},
      isModalOpen = False, modalMode = Folder_mode, editingFolder = None, editingItem = None,
      folderName = [], itemTags = [], tagInput = [], formData = emptyForm\<rparr>"


text \<open>A draft with the tag \<open>lead\<close> and the same tag, with blanks around it, typed in.\<close>

definition draft :: prep_state where
  "draft = initial_state\<lparr>formData := emptyForm\<lparr>tags := [''lead'']\<rparr>, tagInput := '' lead ''\<rparr>"

text \<open>
  The Dashboard page when it is mounted, the values that the store generates for an
  insert, and a job form whose company is blank.
\<close>

definition emptyJobForm :: jobFormData where
  "emptyJobForm = \<lparr>role = [], company = [], status = ''Applied'', applied_date = ''2025-01-01'',
                    job_link = [], notes_job = []\<rparr>"

definition initial_dashboard :: dashboard_state where
  "initial_dashboard =
     \<lparr>jobs = [], filteredJobs = [], isLoading_jobs = True, searchQuery = [], statusFilter = ''all'',
      isModalOpen_jobs = False, editingJob = None, formData_jobs = emptyJobForm\<rparr>"

definition gen0 :: generated where
  "gen0 = \<lparr>gen_random_uuid = ''N'', gen_now = ''t1'', gen_current_date = ''2025-01-01''\<rparr>"

definition blank_job :: dashboard_state where
  "blank_job = initial_dashboard\<lparr>isLoading_jobs := False, isModalOpen_jobs := True,
                 formData_jobs := emptyJobForm\<lparr>role := ''Engineer'', company := ''  ''\<rparr>\<rparr>"

text \<open>A store in which two users have a folder each.\<close>

definition two_user_db :: pg_db where
  "two_user_db =
     (\<lambda>t. [])(''prep_folders'' := [folder_row ''A'' ''u1'' Null, folder_row ''Z'' ''u2'' Null])"



text \<open>
  The Preparation page while the item \<open>x\<close> is edited, and the payload and the stored row
  of a new note.
\<close>

definition edit_state :: prep_state where
  "edit_state = initial_state\<lparr>isLoading := False, selectedFolderId := Some ''B'', isModalOpen := True,
                  modalMode := Story_mode, editingItem := Some itemX,
                  formData := emptyForm\<lparr>title := ''new title''\<rparr>\<rparr>"

definition note_payload :: payload where
  "note_payload = [(''user_id'', Str ''u1''), (''folder_id'', Str ''A''), (''type'', Str ''note''),
                   (''title'', Str ''zz'')]"

definition note_row :: row where
  "note_row = null_row ''prep_items'' ++ column_defaults gen0 ''prep_items'' ++ object note_payload"

section \<open>The folder tree builder\<close>

lemma those_map_Some:
  "those (map h xs) = Some ys \<Longrightarrow> ys = map (\<lambda>x. the (h x)) xs \<and> (\<forall>x \<in> set xs. h x \<noteq> None)"
  by (induction xs arbitrary: ys) (auto split: option.splits)

lemma those_map_total:
  "\<forall>x \<in> set xs. h x \<noteq> None \<Longrightarrow> those (map h xs) = Some (map (\<lambda>x. the (h x)) xs)"
  by (induction xs) auto

lemma build_Suc_Some:
  assumes "buildFolderTree (Suc n) fs e k = Some forest"
  shows "forest = map (\<lambda>f. FolderTreeNode f (the (buildFolderTree n fs e (Some (fid f)))) (fid f \<in> e))
                      (filter (\<lambda>f. parent_id f = k) fs)"
    and "\<forall>f \<in> set (filter (\<lambda>f. parent_id f = k) fs). buildFolderTree n fs e (Some (fid f)) \<noteq> None"
proof -
  let ?h = "\<lambda>f. map_option (\<lambda>cs. FolderTreeNode f cs (fid f \<in> e)) (buildFolderTree n fs e (Some (fid f)))"
  from assms have a: "those (map ?h (filter (\<lambda>f. parent_id f = k) fs)) = Some forest" by simp
  from those_map_Some [OF a] have b: "forest = map (\<lambda>x. the (?h x)) (filter (\<lambda>f. parent_id f = k) fs)"
    and c: "\<forall>x \<in> set (filter (\<lambda>f. parent_id f = k) fs). ?h x \<noteq> None" by blast+
  from c show "\<forall>f \<in> set (filter (\<lambda>f. parent_id f = k) fs). buildFolderTree n fs e (Some (fid f)) \<noteq> None"
    by auto
  with b show "forest = map (\<lambda>f. FolderTreeNode f (the (buildFolderTree n fs e (Some (fid f)))) (fid f \<in> e))
                      (filter (\<lambda>f. parent_id f = k) fs)"
    by (auto simp: option.map_sel)
qed

lemma build_Suc_total:
  assumes "\<forall>f \<in> set (filter (\<lambda>f. parent_id f = k) fs). buildFolderTree n fs e (Some (fid f)) \<noteq> None"
  shows "buildFolderTree (Suc n) fs e k =
     Some (map (\<lambda>f. FolderTreeNode f (the (buildFolderTree n fs e (Some (fid f)))) (fid f \<in> e))
                      (filter (\<lambda>f. parent_id f = k) fs))"
proof -
  let ?h = "\<lambda>f. map_option (\<lambda>cs. FolderTreeNode f cs (fid f \<in> e)) (buildFolderTree n fs e (Some (fid f)))"
  from assms have "\<forall>x \<in> set (filter (\<lambda>f. parent_id f = k) fs). ?h x \<noteq> None" by auto
  from those_map_total [OF this] show ?thesis using assms by (auto simp: option.map_sel)
qed

lemma build_mono_Suc:
  "buildFolderTree n fs e k = Some forest \<Longrightarrow> buildFolderTree (Suc n) fs e k = Some forest"
proof (induction n arbitrary: k forest)
  case 0 then show ?case by simp
next
  case (Suc n)
  note s = build_Suc_Some [OF Suc.prems]
  have t: "\<forall>f \<in> set (filter (\<lambda>f. parent_id f = k) fs). buildFolderTree (Suc n) fs e (Some (fid f)) = buildFolderTree n fs e (Some (fid f))"
    using s(2) Suc.IH by fastforce
  then have "\<forall>f \<in> set (filter (\<lambda>f. parent_id f = k) fs). buildFolderTree (Suc n) fs e (Some (fid f)) \<noteq> None"
    using s(2) by simp
  from build_Suc_total [OF this] show ?case using s(1) t by (simp cong: map_cong)
qed

lemma build_mono:
  "buildFolderTree n fs e k = Some forest \<Longrightarrow> n \<le> m \<Longrightarrow> buildFolderTree m fs e k = Some forest"
  by (induction m) (auto simp: le_Suc_eq build_mono_Suc simp del: buildFolderTree.simps)

lemma parent_edges_iff:
  "(x, p) \<in> parent_edges fs \<longleftrightarrow> (\<exists>f \<in> set fs. fid f = x \<and> parent_id f = Some p)"
  unfolding parent_edges_def by (force split: option.splits)

lemma finite_parent_edges: "finite (parent_edges fs)"
  unfolding parent_edges_def by (rule finite_set)

lemma uniform_fuel:
  assumes "\<forall>x \<in> set xs. \<exists>n. buildFolderTree n fs e (Some (fid x)) \<noteq> None"
  shows "\<exists>N. \<forall>x \<in> set xs. buildFolderTree N fs e (Some (fid x)) \<noteq> None"
  using assms
proof (induction xs)
  case Nil then show ?case by simp
next
  case (Cons x xs)
  then obtain N where N: "\<forall>y \<in> set xs. buildFolderTree N fs e (Some (fid y)) \<noteq> None" by auto
  from Cons.prems obtain n where n: "buildFolderTree n fs e (Some (fid x)) \<noteq> None" by auto
  have up: "buildFolderTree (max n N) fs e k \<noteq> None"
    if "buildFolderTree i fs e k \<noteq> None" and "i \<le> max n N" for i k
  proof -
    from that(1) obtain t where "buildFolderTree i fs e k = Some t" by blast
    from build_mono [OF this that(2)] show ?thesis by (simp only: option.distinct not_False_eq_True)
  qed
  have "buildFolderTree (max n N) fs e (Some (fid x)) \<noteq> None"
    by (rule up [OF n max.cobounded1])
  moreover have "\<forall>y \<in> set xs. buildFolderTree (max n N) fs e (Some (fid y)) \<noteq> None"
    using up N by (meson max.cobounded2)
  ultimately have "\<forall>y \<in> set (x # xs). buildFolderTree (max n N) fs e (Some (fid y)) \<noteq> None"
    by (simp del: buildFolderTree.simps)
  then show ?case ..
qed

lemma build_terminates_Some:
  assumes "acyclic (parent_edges fs)"
  shows "\<exists>n. buildFolderTree n fs e (Some p) \<noteq> None"
proof -
  have wf: "wf (parent_edges fs)"
    using finite_parent_edges assms by (rule finite_acyclic_wf)
  show ?thesis
  proof (induction p rule: wf_induct_rule [OF wf])
    case (1 p)
    have "\<forall>x \<in> set (filter (\<lambda>f. parent_id f = Some p) fs). \<exists>n. buildFolderTree n fs e (Some (fid x)) \<noteq> None"
      using 1 by (auto simp: parent_edges_iff)
    from uniform_fuel [OF this] obtain N where
      "\<forall>x \<in> set (filter (\<lambda>f. parent_id f = Some p) fs). buildFolderTree N fs e (Some (fid x)) \<noteq> None" ..
    from build_Suc_total [OF this] have "buildFolderTree (Suc N) fs e (Some p) \<noteq> None"
      by (simp only: option.distinct not_False_eq_True)
    then show ?case ..
  qed
qed

lemma build_terminates:
  assumes "acyclic (parent_edges fs)"
  shows "\<exists>n. buildFolderTree n fs e k \<noteq> None"
proof -
  have "\<forall>x \<in> set (filter (\<lambda>f. parent_id f = k) fs). \<exists>n. buildFolderTree n fs e (Some (fid x)) \<noteq> None"
    using build_terminates_Some [OF assms] by blast
  from uniform_fuel [OF this] obtain N where
    "\<forall>x \<in> set (filter (\<lambda>f. parent_id f = k) fs). buildFolderTree N fs e (Some (fid x)) \<noteq> None" ..
  from build_Suc_total [OF this] have "buildFolderTree (Suc N) fs e k \<noteq> None"
    by (simp only: option.distinct not_False_eq_True)
  then show ?thesis ..
qed

lemma build_children:
  "buildFolderTree n fs e k = Some forest \<Longrightarrow>
     map folder forest = filter (\<lambda>f. parent_id f = k) fs \<and>
     (\<forall>nd \<in> set (forest_nodes forest).
        map folder (children nd) = filter (\<lambda>f. parent_id f = Some (fid (folder nd))) fs \<and>
        isExpanded nd = (fid (folder nd) \<in> e))"
proof (induction n arbitrary: k forest)
  case 0 then show ?case by simp
next
  case (Suc n)
  note s = build_Suc_Some [OF Suc.prems]
  let ?cs = "filter (\<lambda>f. parent_id f = k) fs"
  let ?sub = "\<lambda>f. the (buildFolderTree n fs e (Some (fid f)))"
  have sub: "\<And>f. f \<in> set ?cs \<Longrightarrow> buildFolderTree n fs e (Some (fid f)) = Some (?sub f)"
    using s(2) by auto
  have 1: "map folder forest = ?cs" unfolding s(1) by (simp add: comp_def)
  have fn: "set (forest_nodes (map g xs)) = (\<Union>x \<in> set xs. set (nodes (g x)))" for g and xs :: "PrepFolder list"
    by (induction xs) auto
  have 2: "\<forall>nd \<in> set (forest_nodes forest).
        map folder (children nd) = filter (\<lambda>f. parent_id f = Some (fid (folder nd))) fs \<and>
        isExpanded nd = (fid (folder nd) \<in> e)"
  proof
    fix nd assume "nd \<in> set (forest_nodes forest)"
    then obtain f where f: "f \<in> set ?cs" and nd: "nd \<in> set (nodes (FolderTreeNode f (?sub f) (fid f \<in> e)))"
      unfolding s(1) fn by blast
    from Suc.IH [OF sub [OF f]] nd
    show "map folder (children nd) = filter (\<lambda>f. parent_id f = Some (fid (folder nd))) fs \<and>
        isExpanded nd = (fid (folder nd) \<in> e)" by auto
  qed
  from 1 2 show ?case by blast
qed

lemma fid_inj:
  "distinct (map fid fs) \<Longrightarrow> f \<in> set fs \<Longrightarrow> g \<in> set fs \<Longrightarrow> fid f = fid g \<Longrightarrow> f = g"
  by (meson distinct_map inj_onD)

lemma single_valued_parent_edges:
  assumes "distinct (map fid fs)" shows "single_valued (parent_edges fs)"
  unfolding single_valued_def parent_edges_iff
  using fid_inj [OF assms] by (metis option.inject)

lemma descendants_unfold:
  assumes d: "distinct (map fid fs)"
  shows "descendants fs q = (\<Union>c \<in> set (filter (\<lambda>f. parent_id f = Some q) fs). insert c (descendants fs (fid c)))"
    (is "?L = ?R")
proof (intro set_eqI iffI)
  fix f assume "f \<in> ?L"
  then have f: "f \<in> set fs" and t: "(fid f, q) \<in> (parent_edges fs)\<^sup>+" by (auto simp: descendants_def)
  from t show "f \<in> ?R"
  proof (cases rule: tranclE)
    case base
    then obtain g where "g \<in> set fs" "fid g = fid f" "parent_id g = Some q" by (auto simp: parent_edges_iff)
    with fid_inj [OF d] f have "parent_id f = Some q" by metis
    with f show ?thesis by auto
  next
    case (step p)
    then obtain g where g: "g \<in> set fs" "fid g = p" "parent_id g = Some q" by (auto simp: parent_edges_iff)
    with step f have "f \<in> descendants fs (fid g)" by (simp add: descendants_def)
    with g show ?thesis by auto
  qed
next
  fix f assume "f \<in> ?R"
  then obtain c where c: "c \<in> set fs" "parent_id c = Some q" and f: "f = c \<or> f \<in> descendants fs (fid c)" by auto
  from c have e: "(fid c, q) \<in> parent_edges fs" by (auto simp: parent_edges_iff)
  from f show "f \<in> ?L"
  proof
    assume "f = c" with c e show ?thesis by (auto simp: descendants_def)
  next
    assume "f \<in> descendants fs (fid c)"
    with e show ?thesis by (auto simp: descendants_def intro: trancl_into_trancl)
  qed
qed

lemma forest_nodes_map:
  "map folder (forest_nodes (map (\<lambda>f. FolderTreeNode f (sub f) (ex f)) xs)) =
   concat (map (\<lambda>f. f # map folder (forest_nodes (sub f))) xs)"
  by (induction xs) auto

lemma build_folders_set:
  assumes d: "distinct (map fid fs)"
  shows "buildFolderTree n fs e k = Some forest \<Longrightarrow>
     set (map folder (forest_nodes forest)) =
       (\<Union>c \<in> set (filter (\<lambda>f. parent_id f = k) fs). insert c (descendants fs (fid c)))"
proof (induction n arbitrary: k forest)
  case 0 then show ?case by simp
next
  case (Suc n)
  note s = build_Suc_Some [OF Suc.prems]
  let ?cs = "filter (\<lambda>f. parent_id f = k) fs"
  let ?sub = "\<lambda>f. the (buildFolderTree n fs e (Some (fid f)))"
  have sub: "\<And>f. f \<in> set ?cs \<Longrightarrow> buildFolderTree n fs e (Some (fid f)) = Some (?sub f)"
    using s(2) by auto
  have "set (map folder (forest_nodes (?sub f))) = descendants fs (fid f)" if "f \<in> set ?cs" for f
    using Suc.IH [OF sub [OF that]] descendants_unfold [OF d, of "fid f"] by (simp only:)
  then show ?case unfolding s(1) forest_nodes_map by auto
qed

lemma no_edge_from_root:
  assumes d: "distinct (map fid fs)" and c: "c \<in> set fs" "parent_id c = None"
  shows "(fid c, x) \<notin> (parent_edges fs)\<^sup>+"
proof
  assume "(fid c, x) \<in> (parent_edges fs)\<^sup>+"
  then obtain y where "(fid c, y) \<in> parent_edges fs" by (meson tranclD)
  then obtain g where "g \<in> set fs" "fid g = fid c" "parent_id g = Some y" by (auto simp: parent_edges_iff)
  with fid_inj [OF d] c show False by (metis option.distinct(1))
qed

lemma sibling_not_descendant:
  assumes d: "distinct (map fid fs)" and a: "acyclic (parent_edges fs)"
    and c: "c \<in> set fs" "parent_id c = k" and c': "c' \<in> set fs" "parent_id c' = k"
  shows "(fid c, fid c') \<notin> (parent_edges fs)\<^sup>+"
proof
  assume t: "(fid c, fid c') \<in> (parent_edges fs)\<^sup>+"
  show False
  proof (cases k)
    case None with no_edge_from_root [OF d] c t show False by blast
  next
    case (Some q)
    from t obtain y where y: "(fid c, y) \<in> parent_edges fs" "(y, fid c') \<in> (parent_edges fs)\<^sup>*"
      by (meson tranclD)
    from c Some have "(fid c, q) \<in> parent_edges fs" by (auto simp: parent_edges_iff)
    with y single_valued_parent_edges [OF d] have "y = q" by (meson single_valuedD)
    moreover from c' Some have "(fid c', q) \<in> parent_edges fs" by (auto simp: parent_edges_iff)
    ultimately have "(q, q) \<in> (parent_edges fs)\<^sup>+" using y(2) by (meson rtrancl_into_trancl1)
    with a show False by (simp add: acyclic_def)
  qed
qed

lemma siblings_disjoint:
  assumes d: "distinct (map fid fs)" and a: "acyclic (parent_edges fs)"
    and c: "c \<in> set fs" "parent_id c = k" and c': "c' \<in> set fs" "parent_id c' = k" and ne: "c \<noteq> c'"
  shows "descendants fs (fid c) \<inter> descendants fs (fid c') = {}"
proof (rule ccontr)
  assume "descendants fs (fid c) \<inter> descendants fs (fid c') \<noteq> {}"
  then obtain g where "g \<in> descendants fs (fid c)" "g \<in> descendants fs (fid c')" by blast
  then have g: "(fid g, fid c) \<in> (parent_edges fs)\<^sup>+" "(fid g, fid c') \<in> (parent_edges fs)\<^sup>+"
    by (simp_all add: descendants_def)
  then have "(fid c, fid c') \<in> (parent_edges fs)\<^sup>* \<or> (fid c', fid c) \<in> (parent_edges fs)\<^sup>*"
    using single_valued_confluent [OF single_valued_parent_edges [OF d]] by (meson trancl_into_rtrancl)
  moreover have "fid c \<noteq> fid c'" using fid_inj [OF d] c c' ne by blast
  ultimately have "(fid c, fid c') \<in> (parent_edges fs)\<^sup>+ \<or> (fid c', fid c) \<in> (parent_edges fs)\<^sup>+"
    by (metis rtranclD)
  with sibling_not_descendant [OF d a] c c' show False by blast
qed



lemma distinct_concat_cons:
  assumes "distinct xs"
    and "\<And>x. x \<in> set xs \<Longrightarrow> distinct (g x)"
    and "\<And>x y. x \<in> set xs \<Longrightarrow> y \<in> set xs \<Longrightarrow> x \<notin> set (g y)"
    and "\<And>x y. x \<in> set xs \<Longrightarrow> y \<in> set xs \<Longrightarrow> x \<noteq> y \<Longrightarrow> set (g x) \<inter> set (g y) = {}"
  shows "distinct (concat (map (\<lambda>x. x # g x) xs))"
  using assms
proof (induction xs)
  case Nil then show ?case by simp
next
  case (Cons a xs)
  have "distinct (concat (map (\<lambda>x. x # g x) xs))" using Cons by (simp add: Cons.IH)
  moreover have "a \<notin> set (g a)" "distinct (g a)" using Cons.prems by auto
  moreover have "\<And>y. y \<in> set xs \<Longrightarrow> a \<noteq> y \<and> a \<notin> set (g y) \<and> y \<notin> set (g a) \<and> set (g a) \<inter> set (g y) = {}"
    using Cons.prems by (metis distinct.simps(2) list.set_intros(1,2))
  ultimately show ?case by auto
qed



lemma build_folders_distinct:
  assumes d: "distinct (map fid fs)" and a: "acyclic (parent_edges fs)"
  shows "buildFolderTree n fs e k = Some forest \<Longrightarrow> distinct (map folder (forest_nodes forest))"
proof (induction n arbitrary: k forest)
  case 0 then show ?case by simp
next
  case (Suc n)
  note s = build_Suc_Some [OF Suc.prems]
  let ?cs = "filter (\<lambda>f. parent_id f = k) fs"
  let ?sub = "\<lambda>f. the (buildFolderTree n fs e (Some (fid f)))"
  let ?g = "\<lambda>f. map folder (forest_nodes (?sub f))"
  have sub: "\<And>f. f \<in> set ?cs \<Longrightarrow> buildFolderTree n fs e (Some (fid f)) = Some (?sub f)"
    using s(2) by auto
  have g: "set (?g f) = descendants fs (fid f)" if "f \<in> set ?cs" for f
    using build_folders_set [OF d sub [OF that]] descendants_unfold [OF d, of "fid f"] by (simp only:)
  have dfs: "distinct fs" using d by (simp add: distinct_map)
  have "distinct (concat (map (\<lambda>x. x # ?g x) ?cs))"
  proof (rule distinct_concat_cons)
    show "distinct ?cs" using d by (simp add: distinct_map)
    show "\<And>x. x \<in> set ?cs \<Longrightarrow> distinct (?g x)" using Suc.IH [OF sub] .
    show "\<And>x y. x \<in> set ?cs \<Longrightarrow> y \<in> set ?cs \<Longrightarrow> x \<notin> set (?g y)"
      using sibling_not_descendant [OF d a, of _ k] by (auto simp: g descendants_def simp del: set_map)
    show "\<And>x y. x \<in> set ?cs \<Longrightarrow> y \<in> set ?cs \<Longrightarrow> x \<noteq> y \<Longrightarrow> set (?g x) \<inter> set (?g y) = {}"
      using siblings_disjoint [OF d a, of _ k] by (simp add: g del: set_map)
  qed
  then show ?case unfolding s(1) forest_nodes_map .
qed



lemma all_below_roots:
  assumes a: "acyclic (parent_edges fs)" and r: "parents_resolve fs"
  shows "set fs \<subseteq> (\<Union>c \<in> set (filter (\<lambda>f. parent_id f = None) fs). insert c (descendants fs (fid c)))"
    (is "_ \<subseteq> ?R")
proof -
  have wf: "wf ((parent_edges fs)\<inverse>)"
    using finite_parent_edges a by (rule finite_acyclic_wf_converse)
  have "\<forall>f \<in> set fs. fid f = x \<longrightarrow> f \<in> ?R" for x
  proof (induction x rule: wf_induct_rule [OF wf])
    case (1 x)
    show ?case
    proof (intro ballI impI)
      fix f assume f: "f \<in> set fs" "fid f = x"
      show "f \<in> ?R"
      proof (cases "parent_id f")
        case None with f show ?thesis by auto
      next
        case (Some p)
        with r f have "p \<in> set (map fid fs)" by (force simp: parents_resolve_def)
        then obtain h where h: "h \<in> set fs" "fid h = p" by auto
        from Some f have e: "(x, p) \<in> parent_edges fs" by (auto simp: parent_edges_iff)
        then have "h \<in> ?R" using 1 h by blast
        then obtain c where c: "c \<in> set fs" "parent_id c = None" "h = c \<or> h \<in> descendants fs (fid c)" by auto
        have "(fid f, fid c) \<in> (parent_edges fs)\<^sup>+"
          using c(3) e f h by (auto simp: descendants_def intro: trancl_into_trancl2)
        with f c show ?thesis by (auto simp: descendants_def)
      qed
    qed
  qed
  then show ?thesis by blast
qed

lemma build_root_count:
  assumes d: "distinct (map fid fs)" and a: "acyclic (parent_edges fs)" and r: "parents_resolve fs"
    and b: "buildFolderTree n fs e None = Some forest"
  shows "node_count forest = length fs"
proof -
  let ?xs = "map folder (forest_nodes forest)"
  have "set ?xs \<subseteq> set fs" using build_folders_set [OF d b] by (auto simp: descendants_def)
  moreover have "set fs \<subseteq> set ?xs" using all_below_roots [OF a r] build_folders_set [OF d b] by simp
  ultimately have "set ?xs = set fs" by blast
  moreover have "distinct ?xs" using build_folders_distinct [OF d a b] .
  moreover have "distinct fs" using d by (simp add: distinct_map)
  ultimately have "length ?xs = length fs" by (metis distinct_card)
  then show ?thesis by (simp add: node_count_def)
qed



text \<open>
  Claim C1. For a folder list with distinct identifiers, no cycle of parent references and
  parent references that resolve within the list, the build from the null parent returns
  (from some depth of the call stack on, always with the same forest); the forest has as
  many nodes as there are folders, and the children of every node, at whatever depth, are
  exactly the folders whose parent reference is the node's identifier, in the order of the
  list.
\<close>

theorem buildFolderTree_forest:
  assumes "distinct (map fid fs)" and "acyclic (parent_edges fs)"
    and "parents_resolve fs"
  shows "\<exists>n forest.
           (\<forall>m\<ge>n. buildFolderTree m fs expanded None = Some forest) \<and>
           node_count forest = length fs \<and>
           (\<forall>nd \<in> set (forest_nodes forest).
              map folder (children nd) =
                filter (\<lambda>f. parent_id f = Some (fid (folder nd))) fs)"
proof -
  from build_terminates [OF assms(2)] obtain n forest
    where b: "buildFolderTree n fs expanded None = Some forest" by blast
  have "\<forall>m\<ge>n. buildFolderTree m fs expanded None = Some forest"
    using build_mono [OF b] by blast
  moreover have "node_count forest = length fs"
    using build_root_count [OF assms b] .
  moreover have "\<forall>nd \<in> set (forest_nodes forest).
              map folder (children nd) =
                filter (\<lambda>f. parent_id f = Some (fid (folder nd))) fs"
    using build_children [OF b] by blast
  ultimately show ?thesis by blast
qed

lemma acyclic_ABC: "acyclic (parent_edges [folderA, folderB, folderC])"
  by code_simp

theorem buildFolderTree_forest_witness:
  "distinct (map fid [folderA, folderB, folderC]) \<and>
   acyclic (parent_edges [folderA, folderB, folderC]) \<and>
   parents_resolve [folderA, folderB, folderC] \<and>
   (\<exists>n forest.
      (\<forall>m\<ge>n. buildFolderTree m [folderA, folderB, folderC] {''A''} None = Some forest) \<and>
      node_count forest = length [folderA, folderB, folderC] \<and>
      (\<forall>nd \<in> set (forest_nodes forest).
         map folder (children nd) =
           filter (\<lambda>f. parent_id f = Some (fid (folder nd))) [folderA, folderB, folderC]))"
proof -
  have d: "distinct (map fid [folderA, folderB, folderC])"
    by (simp add: folderA_def folderB_def folderC_def)
  have r: "parents_resolve [folderA, folderB, folderC]"
    by (simp add: parents_resolve_def folderA_def folderB_def folderC_def)
  show ?thesis
    using d acyclic_ABC r buildFolderTree_forest [OF d acyclic_ABC r, of "{''A''}"] by blast
qed

lemma build_ABC:
  "buildFolderTree 4 [folderA, folderB, folderC] {''A''} None =
     Some [FolderTreeNode folderA [FolderTreeNode folderB [FolderTreeNode folderC [] False] False] True]"
  by (simp add: numeral_eq_Suc folderA_def folderB_def folderC_def)

lemma loop_diverges:
  "buildFolderTree n [loopA, loopB] e (Some ''A'') = None \<and>
   buildFolderTree n [loopA, loopB] e (Some ''B'') = None"
  by (induction n) (simp_all add: loopA_def loopB_def)

text \<open>
  The two folders that are each other's parent are not reached from the null parent: the
  page's own call, \<open>buildFolderTree(null)\<close>, returns the empty forest on them.
\<close>

lemma loop_root: "buildFolderTree (Suc n) [loopA, loopB] e None = Some []"
  by (simp add: loopA_def loopB_def)

text \<open>
  Claim C2. The builder has no cycle detection. On every folder list without a cycle of
  parent references the recursion returns, from every parent it is started at. There is
  a folder list with distinct identifiers, in which a folder's parent is one of the
  folder's own descendants, and a parent to start at, such that the recursion does not
  return at any depth of the call stack.
\<close>

theorem buildFolderTree_no_cycle_detection:
  "(\<forall>fs expanded parentId.
      acyclic (parent_edges fs) \<longrightarrow>
      (\<exists>n forest. buildFolderTree n fs expanded parentId = Some forest)) \<and>
   (\<exists>fs parentId.
      distinct (map fid fs) \<and>
      (\<exists>f \<in> set fs. \<exists>p. parent_id f = Some p \<and> (p, fid f) \<in> (parent_edges fs)\<^sup>+) \<and>
      (\<forall>n expanded. buildFolderTree n fs expanded parentId = None))"
proof (intro conjI allI impI)
  fix fs :: "PrepFolder list" and expanded parentId
  assume "acyclic (parent_edges fs)"
  from build_terminates [OF this]
  show "\<exists>n forest. buildFolderTree n fs expanded parentId = Some forest" by auto
next
  have "distinct (map fid [loopA, loopB])" by (simp add: loopA_def loopB_def)
  moreover have "(''B'', ''A'') \<in> (parent_edges [loopA, loopB])\<^sup>+"
    by (rule r_into_trancl) (simp add: parent_edges_def loopA_def loopB_def)
  then have "\<exists>f \<in> set [loopA, loopB]. \<exists>p. parent_id f = Some p \<and> (p, fid f) \<in> (parent_edges [loopA, loopB])\<^sup>+"
    by (simp add: loopA_def)
  moreover have "\<forall>n e. buildFolderTree n [loopA, loopB] e (Some ''A'') = None"
    using loop_diverges by blast
  ultimately show "\<exists>fs parentId.
      distinct (map fid fs) \<and>
      (\<exists>f \<in> set fs. \<exists>p. parent_id f = Some p \<and> (p, fid f) \<in> (parent_edges fs)\<^sup>+) \<and>
      (\<forall>n expanded. buildFolderTree n fs expanded parentId = None)"
    by blast
qed

theorem buildFolderTree_no_cycle_detection_witness:
  "acyclic (parent_edges [folderA, folderB, folderC]) \<and>
   (\<exists>n forest. buildFolderTree n [folderA, folderB, folderC] {} (Some ''A'') = Some forest)"
  using acyclic_ABC buildFolderTree_no_cycle_detection by blast

section \<open>Items of the selected folder, tags of the draft\<close>

text \<open>
  Claim C3. For every item list and every selected folder, the items shown are exactly the
  items whose folder reference is the selected identifier, in the order and number in which
  the list has them; with no folder selected nothing is shown. In a folder hierarchy
  without cycles, an item whose folder is a descendant of the selection is not shown.
\<close>

theorem selectedFolderItems_exact:
  "selectedFolderItems its (Some sel) = filter (\<lambda>item. folder_id item = sel) its \<and>
   selectedFolderItems its None = [] \<and>
   (\<forall>item. item \<in> set (selectedFolderItems its (Some sel)) \<longleftrightarrow>
             item \<in> set its \<and> folder_id item = sel) \<and>
   (acyclic (parent_edges fs) \<longrightarrow>
      (\<forall>item \<in> set its. (folder_id item, sel) \<in> (parent_edges fs)\<^sup>+ \<longrightarrow>
                         item \<notin> set (selectedFolderItems its (Some sel))))"
proof (intro conjI allI impI ballI)
  show "selectedFolderItems its (Some sel) = filter (\<lambda>item. folder_id item = sel) its"
    by (simp add: selectedFolderItems_def)
  show "selectedFolderItems its None = []"
    by (simp add: selectedFolderItems_def)
  show "item \<in> set (selectedFolderItems its (Some sel)) \<longleftrightarrow> item \<in> set its \<and> folder_id item = sel"
    for item by (auto simp: selectedFolderItems_def)
next
  fix item :: PrepItem
  assume a: "acyclic (parent_edges fs)" and d: "(folder_id item, sel) \<in> (parent_edges fs)\<^sup>+"
  from a d have "folder_id item \<noteq> sel" by (auto simp: acyclic_def)
  then show "item \<notin> set (selectedFolderItems its (Some sel))"
    by (simp add: selectedFolderItems_def)
qed

theorem selectedFolderItems_exact_witness:
  "selectedFolderItems [itemX] (Some ''B'') = [itemX] \<and>
   selectedFolderItems [itemX] (Some ''A'') = [] \<and>
   acyclic (parent_edges [folderA, folderB, folderC]) \<and>
   (folder_id itemX, ''A'') \<in> (parent_edges [folderA, folderB, folderC])\<^sup>+ \<and>
   itemX \<notin> set (selectedFolderItems [itemX] (Some ''A''))"
proof -
  have a: "acyclic (parent_edges [folderA, folderB, folderC])" by code_simp
  have e: "(folder_id itemX, ''A'') \<in> (parent_edges [folderA, folderB, folderC])\<^sup>+"
    by (rule r_into_trancl) (simp add: parent_edges_def itemX_def folderA_def folderB_def folderC_def)
  have b: "selectedFolderItems [itemX] (Some ''B'') = [itemX]"
    using selectedFolderItems_exact [of "[itemX]" "''B''" "[]"] by (simp add: itemX_def)
  have m: "itemX \<in> set [itemX]" by simp
  have c: "itemX \<notin> set (selectedFolderItems [itemX] (Some ''A''))"
    using selectedFolderItems_exact [of "[itemX]" "''A''" "[folderA, folderB, folderC]"] a e m by blast
  then have "selectedFolderItems [itemX] (Some ''A'') = []"
    by (simp add: selectedFolderItems_def split: if_splits)
  with a e b c show ?thesis by blast
qed

lemma trim_Nil: "trim [] = []"
  by (simp add: trim_def)

text \<open>
  Claim C6. On a draft, adding a tag that the tag list already has changes nothing, and so
  does removing a tag that the list does not have; an add keeps a duplicate-free list
  duplicate-free; and adding twice, or removing twice, is the same as doing it once.
\<close>

theorem tag_add_remove_idempotent:
  "(trim (tagInput s) \<in> set (tags (formData s)) \<longrightarrow> handleAddTag s = s) \<and>
   (t \<notin> set (tags (formData s)) \<longrightarrow> handleRemoveTag t s = s) \<and>
   (distinct (tags (formData s)) \<longrightarrow> distinct (tags (formData (handleAddTag s)))) \<and>
   handleAddTag (handleAddTag s) = handleAddTag s \<and>
   handleRemoveTag t (handleRemoveTag t s) = handleRemoveTag t s"
proof (intro conjI impI)
  show "handleAddTag s = s" if "trim (tagInput s) \<in> set (tags (formData s))"
    using that by (simp add: handleAddTag_def)
  show "handleRemoveTag t s = s" if "t \<notin> set (tags (formData s))"
  proof -
    from that have "filter (\<lambda>tag. tag \<noteq> t) (tags (formData s)) = tags (formData s)"
      by (simp add: filter_id_conv) blast
    then show ?thesis by (simp add: handleRemoveTag_def)
  qed
  show "distinct (tags (formData (handleAddTag s)))" if "distinct (tags (formData s))"
    using that by (simp add: handleAddTag_def Let_def)
  show "handleAddTag (handleAddTag s) = handleAddTag s"
    by (simp add: handleAddTag_def Let_def trim_Nil truthy_def)
  show "handleRemoveTag t (handleRemoveTag t s) = handleRemoveTag t s"
    by (simp add: handleRemoveTag_def)
qed

theorem tag_add_remove_idempotent_witness:
  "trim (tagInput draft) \<in> set (tags (formData draft)) \<and> handleAddTag draft = draft \<and>
   ''team'' \<notin> set (tags (formData draft)) \<and> handleRemoveTag ''team'' draft = draft \<and>
   distinct (tags (formData draft)) \<and> distinct (tags (formData (handleAddTag draft)))"
proof -
  have 1: "trim (tagInput draft) \<in> set (tags (formData draft))"
    by (simp add: draft_def initial_state_def emptyForm_def trim_def is_ws_def)
  have 2: "''team'' \<notin> set (tags (formData draft))"
    by (simp add: draft_def initial_state_def emptyForm_def)
  have 3: "distinct (tags (formData draft))"
    by (simp add: draft_def initial_state_def emptyForm_def)
  from 1 2 3 tag_add_remove_idempotent [of draft "''team''"] show ?thesis by blast
qed

section \<open>Validation of the job form\<close>

lemma trim_eq_Nil_iff: "trim s = [] \<longleftrightarrow> (\<forall>c \<in> set s. is_ws c)"
proof -
  have "trim s = [] \<longleftrightarrow> (\<forall>c \<in> set (dropWhile is_ws s). is_ws c)"
    by (simp add: trim_def dropWhile_eq_Nil_conv)
  also have "\<dots> \<longleftrightarrow> (\<forall>c \<in> set s. is_ws c)"
  proof
    assume a: "\<forall>c \<in> set (dropWhile is_ws s). is_ws c"
    have "set s = set (takeWhile is_ws s) \<union> set (dropWhile is_ws s)"
      by (metis set_append takeWhile_dropWhile_id)
    with a show "\<forall>c \<in> set s. is_ws c" by (auto dest: set_takeWhileD)
  next
    assume "\<forall>c \<in> set s. is_ws c"
    then show "\<forall>c \<in> set (dropWhile is_ws s). is_ws c" by (auto dest: set_dropWhileD)
  qed
  finally show ?thesis .
qed

text \<open>
  Claim C7. When the role or the company of the job form is empty or consists of white
  space only, saving shows the validation message and does nothing else: no call reaches
  the row store, and the page state and the store are as before.
\<close>

theorem handleSubmit_requires_role_and_company:
  assumes "(\<forall>c \<in> set (role (formData_jobs s)). is_ws c) \<or>
           (\<forall>c \<in> set (company (formData_jobs s)). is_ws c)"
  shows "handleSubmit exec user now s db = ([Toast_error ''Role and Company are required''], s, db)"
  using assms by (auto simp: handleSubmit_def truthy_def trim_eq_Nil_iff)

theorem handleSubmit_requires_role_and_company_witness:
  "((\<forall>c \<in> set (role (formData_jobs blank_job)). is_ws c) \<or>
    (\<forall>c \<in> set (company (formData_jobs blank_job)). is_ws c)) \<and>
   handleSubmit (pg_exec (Some ''u1'') gen0) (Some ''u1'') ''t1'' blank_job example_db =
     ([Toast_error ''Role and Company are required''], blank_job, example_db)"
proof -
  have h: "(\<forall>c \<in> set (role (formData_jobs blank_job)). is_ws c) \<or>
           (\<forall>c \<in> set (company (formData_jobs blank_job)). is_ws c)"
    by (simp add: blank_job_def initial_dashboard_def emptyJobForm_def is_ws_def)
  show ?thesis
    using h handleSubmit_requires_role_and_company
              [OF h, of "pg_exec (Some ''u1'') gen0" "Some ''u1''" "''t1''" example_db]
    by (rule conjI)
qed

section \<open>Failing calls leave the page as it was\<close>















section \<open>Where a new folder is attached\<close>

lemma calls_Cons_Call: "calls (Call q # evs) = q # calls evs"
  by (simp add: calls_def)

lemma calls_Cons_Toast: "calls (Toast_error m # evs) = calls evs" "calls (Toast_success m # evs) = calls evs"
  by (simp_all add: calls_def)

lemma calls_Nil: "calls [] = []"
  by (simp add: calls_def)

lemma calls_fetchData: "list_all is_select (calls (fst (fetchData exec user c s db)))"
  by (simp add: fetchData_def Let_def calls_Cons_Call calls_Cons_Toast calls_Nil
           split: option.splits prod.splits response.splits)

lemma pg_insert_stores:
  assumes "pg_insert caller g t payload db = (Success rows, db')"
  shows "rows = [null_row t ++ column_defaults g t ++ object payload] \<and> db' t = db t @ rows"
  using assms by (auto simp: pg_insert_def Let_def split: if_splits)

text \<open>
  Claim C10. Saving the folder form for a new folder (a name that is not blank, no folder
  being edited) makes one insert into \<open>prep_folders\<close>, followed only by the selects of the
  refetch; the inserted \<open>parent_id\<close> is the selected folder's identifier, and it is null
  exactly when no folder is selected. \<open>createRootFolder\<close> makes one insert, of the folder
  \<open>Root\<close> with a null \<open>parent_id\<close>.
\<close>

theorem new_folder_parent:
  "(truthy (trim (folderName s)) \<longrightarrow> editingFolder s = None \<longrightarrow>
      (\<exists>payload rest.
         calls (fst (handleSaveFolder exec user now s db)) = Insert ''prep_folders'' payload True # rest \<and>
         list_all is_select rest \<and>
         object payload ''parent_id'' = Some (js_opt (selectedFolderId s)) \<and>
         (object payload ''parent_id'' = Some Null \<longleftrightarrow> selectedFolderId s = None))) \<and>
   (\<exists>payload.
      calls (fst (createRootFolder exec (Some uid) s db)) = [Insert ''prep_folders'' payload True] \<and>
      object payload ''name'' = Some (Str ''Root'') \<and> object payload ''parent_id'' = Some Null)"
proof (intro conjI impI)
  assume v: "truthy (trim (folderName s))" and e: "editingFolder s = None"
  let ?p = "user_id_entry user @
              [(''name'', Str (folderName s)), (''parent_id'', js_opt (selectedFolderId s))]"
  let ?q = "Insert ''prep_folders'' ?p True"
  obtain res db1 where x: "exec ?q db = (res, db1)" by (cases "exec ?q db")
  have 1: "\<exists>rest. calls (fst (handleSaveFolder exec user now s db)) = ?q # rest \<and> list_all is_select rest"
  proof (cases "single res")
    case (Inl m)
    with v e x show ?thesis
      by (simp add: handleSaveFolder_def Let_def calls_Cons_Call calls_Cons_Toast calls_Nil)
  next
    case (Inr data)
    let ?s1 = "handleCloseModal (s\<lparr>folders := folders s @ [PrepFolder_of data]\<rparr>)"
    obtain evs s2 db2 where f: "fetchData exec user s ?s1 db1 = (evs, s2, db2)"
      by (cases "fetchData exec user s ?s1 db1")
    with calls_fetchData [of exec user s ?s1 db1] have "list_all is_select (calls evs)" by simp
    with Inr v e x f show ?thesis
      by (simp add: handleSaveFolder_def Let_def calls_Cons_Call calls_Cons_Toast)
  qed
  have 2: "object ?p ''parent_id'' = Some (js_opt (selectedFolderId s))" by (simp add: object_def)
  have 3: "object ?p ''parent_id'' = Some Null \<longleftrightarrow> selectedFolderId s = None"
    by (simp add: object_def js_opt_def split: option.splits)
  from 1 obtain rest where
    r: "calls (fst (handleSaveFolder exec user now s db)) = ?q # rest" "list_all is_select rest"
    by blast
  show "\<exists>payload rest.
         calls (fst (handleSaveFolder exec user now s db)) = Insert ''prep_folders'' payload True # rest \<and>
         list_all is_select rest \<and>
         object payload ''parent_id'' = Some (js_opt (selectedFolderId s)) \<and>
         (object payload ''parent_id'' = Some Null \<longleftrightarrow> selectedFolderId s = None)"
    using r 2 3 by (intro exI [of _ ?p] exI [of _ rest] conjI)
next
  let ?p = "[(''user_id'', Str uid), (''name'', Str ''Root''), (''parent_id'', Null)]"
  obtain res db1 where x: "exec (Insert ''prep_folders'' ?p True) db = (res, db1)"
    by (cases "exec (Insert ''prep_folders'' ?p True) db")
  then have "calls (fst (createRootFolder exec (Some uid) s db)) = [Insert ''prep_folders'' ?p True]"
    by (cases "single res")
       (simp_all add: createRootFolder_def Let_def calls_Cons_Call calls_Cons_Toast calls_Nil)
  moreover have "object ?p ''name'' = Some (Str ''Root'')" "object ?p ''parent_id'' = Some Null"
    by (simp_all add: object_def)
  ultimately show "\<exists>payload.
      calls (fst (createRootFolder exec (Some uid) s db)) = [Insert ''prep_folders'' payload True] \<and>
      object payload ''name'' = Some (Str ''Root'') \<and> object payload ''parent_id'' = Some Null"
    by (intro exI [of _ ?p] conjI)
qed

theorem new_folder_parent_witness:
  "truthy (trim (folderName (initial_state\<lparr>folderName := ''Stories'', selectedFolderId := Some ''A''\<rparr>))) \<and>
   editingFolder (initial_state\<lparr>folderName := ''Stories'', selectedFolderId := Some ''A''\<rparr>) = None \<and>
   (\<exists>payload rest.
      calls (fst (handleSaveFolder (pg_exec (Some ''u1'') gen0) (Some ''u1'') ''t1''
                   (initial_state\<lparr>folderName := ''Stories'', selectedFolderId := Some ''A''\<rparr>)
                   example_db)) = Insert ''prep_folders'' payload True # rest \<and>
      list_all is_select rest \<and>
      object payload ''parent_id'' = Some (Str ''A''))"
proof -
  let ?s = "initial_state\<lparr>folderName := ''Stories'', selectedFolderId := Some ''A''\<rparr>"
  have v: "truthy (trim (folderName ?s))"
    by (simp add: initial_state_def truthy_def trim_def is_ws_def)
  have e: "editingFolder ?s = None" by (simp add: initial_state_def)
  have j: "js_opt (selectedFolderId ?s) = Str ''A''" by (simp add: js_opt_def)
  from v e new_folder_parent [of ?s "pg_exec (Some ''u1'') gen0" "Some ''u1''" "''t1''" example_db]
  have "\<exists>payload rest.
      calls (fst (handleSaveFolder (pg_exec (Some ''u1'') gen0) (Some ''u1'') ''t1'' ?s example_db)) =
        Insert ''prep_folders'' payload True # rest \<and>
      list_all is_select rest \<and>
      object payload ''parent_id'' = Some (js_opt (selectedFolderId ?s))"
    by blast
  with v e j show ?thesis by simp
qed

section \<open>Reads are confined to the caller's own rows\<close>

lemma own_rows_policies_using:
  "p \<in> set (own_rows_policies t col names) \<Longrightarrow>
     policy_table p = t \<and>
     (policy_using p = Some col \<or> (policy_using p = None \<and> policy_command p = INSERT))"
  by (auto simp: own_rows_policies_def)

lemma policies_using:
  assumes "p \<in> set policies"
  shows "policy_using p = Some (owner_column (policy_table p)) \<or>
         (policy_using p = None \<and> policy_command p = INSERT)"
  using assms unfolding policies_def set_append Un_iff
  by (elim disjE) (auto dest!: own_rows_policies_using simp: owner_column_def)

lemma rls_using_owner:
  assumes "rls_using caller t cmd r"
  shows "\<exists>u. caller = Some u \<and> r (owner_column t) = Some (Str u)"
proof -
  from assms obtain p col where p: "p \<in> set policies" "policy_table p = t"
    and u: "policy_using p = Some col" "auth_uid_is caller col r"
    by (auto simp: rls_using_def split: option.splits)
  from policies_using [OF p(1)] p(2) u(1) have "col = owner_column t" by auto
  with u(2) show ?thesis by (auto simp: auth_uid_is_def split: option.splits)
qed

lemma pg_select_owned:
  "r \<in> set (pg_select caller t fs db) \<Longrightarrow> \<exists>u. caller = Some u \<and> r (owner_column t) = Some (Str u)"
  by (auto simp: pg_select_def dest: rls_using_owner)

lemma pg_select_own_rows_only:
  "pg_select (Some u) t fs db =
     filter (\<lambda>r. rls_using (Some u) t SELECT r \<and> matches fs r)
            (filter (\<lambda>r. r (owner_column t) = Some (Str u)) (db t))"
  unfolding pg_select_def filter_filter
  by (rule filter_cong) (auto dest: rls_using_owner)

lemma set_order_by: "set (order_by ord rows) = set rows"
  by (simp add: order_by_def split: option.splits prod.splits)

text \<open>
  Claim C5. Every select policy of the schema admits a row only to the caller whose
  identity is in the row's owner column. So whatever the filters of a read are (a query by
  the row's identifier included), every row that a user reads is the user's own, a row of
  another user is never among them, a table that holds only another user's rows reads as
  empty, and an anonymous caller reads nothing; what a user reads does not depend on the
  rows of other users.
\<close>

theorem select_policies_isolate_users:
  "(\<forall>p \<in> set policies. policy_command p = SELECT \<longrightarrow>
        policy_using p = Some (owner_column (policy_table p))) \<and>
   (\<forall>r \<in> set (pg_select (Some u) t fs db). r (owner_column t) = Some (Str u)) \<and>
   (u \<noteq> v \<longrightarrow> r (owner_column t) = Some (Str v) \<longrightarrow> r \<notin> set (pg_select (Some u) t fs db)) \<and>
   (u \<noteq> v \<longrightarrow> (\<forall>r \<in> set (db t). r (owner_column t) = Some (Str v)) \<longrightarrow>
        pg_select (Some u) t fs db = []) \<and>
   pg_select None t fs db = [] \<and>
   (filter (\<lambda>r. r (owner_column t) = Some (Str u)) (db t) =
    filter (\<lambda>r. r (owner_column t) = Some (Str u)) (db' t) \<longrightarrow>
        pg_select (Some u) t fs db = pg_select (Some u) t fs db') \<and>
   (\<forall>rows db1. pg_exec (Some u) g (Select t fs ord) db = (Success rows, db1) \<longrightarrow>
        db1 = db \<and> (\<forall>r \<in> set rows. r (owner_column t) = Some (Str u)))"
proof (intro conjI ballI allI impI)
  fix p assume "p \<in> set policies" "policy_command p = SELECT"
  with policies_using [of p] show "policy_using p = Some (owner_column (policy_table p))" by auto
next
  fix r assume "r \<in> set (pg_select (Some u) t fs db)"
  from pg_select_owned [OF this] show "r (owner_column t) = Some (Str u)" by simp
next
  assume "u \<noteq> v" "r (owner_column t) = Some (Str v)"
  then show "r \<notin> set (pg_select (Some u) t fs db)" using pg_select_owned [of r "Some u" t fs db] by auto
next
  assume "u \<noteq> v" "\<forall>r \<in> set (db t). r (owner_column t) = Some (Str v)"
  then have "filter (\<lambda>r. r (owner_column t) = Some (Str u)) (db t) = []"
    by (auto simp: filter_empty_conv)
  then show "pg_select (Some u) t fs db = []" by (simp add: pg_select_own_rows_only)
next
  show "pg_select None t fs db = []"
    using pg_select_owned [of _ None t fs db] by (cases "pg_select None t fs db") auto
next
  assume "filter (\<lambda>r. r (owner_column t) = Some (Str u)) (db t) =
          filter (\<lambda>r. r (owner_column t) = Some (Str u)) (db' t)"
  then show "pg_select (Some u) t fs db = pg_select (Some u) t fs db'"
    by (simp only: pg_select_own_rows_only)
next
  fix rows db1 assume a: "pg_exec (Some u) g (Select t fs ord) db = (Success rows, db1)"
  then show "db1 = db" by (auto simp: pg_exec_def split: if_splits)
  fix r assume "r \<in> set rows"
  with a have "r \<in> set (pg_select (Some u) t fs db)"
    by (auto simp: pg_exec_def set_order_by split: if_splits)
  from pg_select_owned [OF this] show "r (owner_column t) = Some (Str u)" by simp
qed

theorem select_policies_isolate_users_witness:
  "''u1'' \<noteq> ''u2'' \<and>
   folder_row ''Z'' ''u2'' Null (owner_column ''prep_folders'') = Some (Str ''u2'') \<and>
   folder_row ''Z'' ''u2'' Null \<in> set (two_user_db ''prep_folders'') \<and>
   folder_row ''Z'' ''u2'' Null \<notin> set (pg_select (Some ''u1'') ''prep_folders'' [(''id'', Str ''Z'')] two_user_db) \<and>
   pg_select (Some ''u1'') ''prep_folders'' [(''id'', Str ''Z'')] two_user_db = [] \<and>
   pg_select (Some ''u2'') ''prep_folders'' [(''id'', Str ''Z'')] two_user_db = [folder_row ''Z'' ''u2'' Null]"
proof -
  have n: "''u1'' \<noteq> ''u2''" by simp
  have o: "folder_row ''Z'' ''u2'' Null (owner_column ''prep_folders'') = Some (Str ''u2'')"
    by (simp add: folder_row_def owner_column_def)
  have m: "folder_row ''Z'' ''u2'' Null \<in> set (two_user_db ''prep_folders'')"
    by (simp add: two_user_db_def)
  have x: "folder_row ''Z'' ''u2'' Null \<notin> set (pg_select (Some ''u1'') ''prep_folders'' [(''id'', Str ''Z'')] two_user_db)"
    using select_policies_isolate_users [of "''u1''" "''prep_folders''" "[(''id'', Str ''Z'')]" two_user_db "''u2''"
            "folder_row ''Z'' ''u2'' Null"] n o by blast
  have e: "pg_select (Some ''u1'') ''prep_folders'' [(''id'', Str ''Z'')] two_user_db = []"
    using x by (simp add: pg_select_def two_user_db_def matches_def column_eq_def sql_eq_def folder_row_def
                     split: if_splits)
  have s: "pg_select (Some ''u2'') ''prep_folders'' [(''id'', Str ''Z'')] two_user_db = [folder_row ''Z'' ''u2'' Null]"
    by (simp add: pg_select_def two_user_db_def matches_def column_eq_def sql_eq_def folder_row_def
                  rls_using_def policies_def own_rows_policies_def auth_uid_is_def)
  from n o m x e s show ?thesis by blast
qed

section \<open>The type of an item\<close>

lemma fetchData_pg_db:
  "snd (snd (fetchData (pg_exec caller g) user c s db)) = db"
  by (simp add: fetchData_def Let_def pg_exec_def split: option.splits prod.splits response.splits)

lemma object_absent: "col \<notin> set (map fst p) \<Longrightarrow> object p col = None"
  by (simp add: object_def map_of_eq_None_iff)

lemma formData_object_no_type: "''type'' \<notin> fst ` set (formData_object fd)"
  by (simp add: formData_object_def)

lemma edit_payload_keys:
  "map fst (formData_object fd @ [(''updated_at'', Str now)]) =
     [''title'', ''situation'', ''task'', ''action'', ''result'', ''content'', ''tags'', ''updated_at'']"
  by (simp add: formData_object_def)

lemma pg_update_keeps_column:
  assumes "col \<notin> set (map fst p)" and "pg_update caller t p fs db = (res, db')"
  shows "map (\<lambda>r. r col) (db' t') = map (\<lambda>r. r col) (db t')"
proof (cases "db' = db")
  case True then show ?thesis by simp
next
  case False
  let ?hit = "\<lambda>r. rls_using caller t SELECT r \<and> rls_using caller t UPDATE r \<and> matches fs r"
  from assms(2) False have "db' = db(t := map (\<lambda>r. if ?hit r then r ++ object p else r) (db t))"
    by (auto simp: pg_update_def Let_def split: if_splits)
  moreover have "(r ++ object p) col = r col" for r :: row
    using object_absent [OF assms(1)] by (simp add: map_add_def)
  ultimately show ?thesis by (auto simp: comp_def)
qed

lemma pg_insert_checked:
  assumes "pg_insert caller g t payload db = (Success rows, db')"
  shows "\<forall>r \<in> set rows. not_null_ok t r \<and> check_ok t r"
proof -
  let ?r = "null_row t ++ column_defaults g t ++ object payload"
  from assms have r: "rows = [?r]" and c: "constraints_ok (db(t := db t @ [?r])) t"
    by (auto simp: pg_insert_def Let_def split: if_splits)
  from c have "not_null_ok t ?r \<and> check_ok t ?r" by (simp add: constraints_ok_def)
  with r show ?thesis by simp
qed

lemma prep_items_type_checked:
  assumes "not_null_ok ''prep_items'' r" and "check_ok ''prep_items'' r"
  shows "r ''type'' = Some (Str ''story'') \<or> r ''type'' = Some (Str ''note'')"
proof -
  from assms(1) have "case r ''type'' of None \<Rightarrow> False | Some v \<Rightarrow> v \<noteq> Null"
    by (simp add: not_null_ok_def not_null_columns_def)
  moreover from assms(2) have "case r ''type'' of Some (Str s) \<Rightarrow> s \<in> {''story'', ''note''}
                                 | Some (StrArr xs) \<Rightarrow> False | _ \<Rightarrow> True"
    by (auto simp: check_ok_def check_constraints_def split: option.splits jsval.splits)
  ultimately show ?thesis by (auto split: option.splits jsval.splits)
qed

lemma select_no_type: "is_select q \<Longrightarrow> \<not> sets_item_type q"
  by (cases q) (simp_all add: sets_item_type_def)

lemma fetchData_no_type:
  assumes "fetchData exec user c s db = (evs, s', db')"
  shows "\<forall>q \<in> set (calls evs). \<not> sets_item_type q"
  using calls_fetchData [of exec user c s db] assms select_no_type
  by (auto simp: list_all_iff)

lemma calls_append: "calls (xs @ ys) = calls xs @ calls ys"
  by (simp add: calls_def)

lemma createRootFolder_no_type:
  "\<forall>q \<in> set (calls (fst (createRootFolder exec user s db))). \<not> sets_item_type q"
proof (cases user)
  case None then show ?thesis by (simp add: createRootFolder_def calls_Nil)
next
  case (Some uid)
  let ?q = "Insert ''prep_folders'' [(''user_id'', Str uid), (''name'', Str ''Root''), (''parent_id'', Null)] True"
  obtain res db1 where x: "exec ?q db = (res, db1)" by (cases "exec ?q db")
  with Some show ?thesis
    by (cases "single res")
       (simp_all add: createRootFolder_def Let_def calls_Cons_Call calls_Cons_Toast calls_Nil
                      sets_item_type_def)
qed

lemma handleDeleteFolder_no_type:
  "\<forall>q \<in> set (calls (fst (handleDeleteFolder exec user i confirmed s db))). \<not> sets_item_type q"
proof (cases confirmed)
  case False then show ?thesis by (simp add: handleDeleteFolder_def calls_Nil)
next
  case True
  let ?q = "Delete ''prep_folders'' [(''id'', Str i)]"
  let ?s1 = "if selectedFolderId s = Some i then s\<lparr>selectedFolderId := None\<rparr> else s"
  obtain res db1 where x: "exec ?q db = (res, db1)" by (cases "exec ?q db")
  obtain evs s2 db2 where f: "fetchData exec user s ?s1 db1 = (evs, s2, db2)"
    by (cases "fetchData exec user s ?s1 db1")
  from fetchData_no_type [OF f] True x f show ?thesis
    by (cases res)
       (simp_all add: handleDeleteFolder_def Let_def calls_Cons_Call calls_Cons_Toast calls_Nil
                      sets_item_type_def)
qed

lemma handleDeleteItem_no_type:
  "\<forall>q \<in> set (calls (fst (handleDeleteItem exec user i confirmed s db))). \<not> sets_item_type q"
proof (cases confirmed)
  case False then show ?thesis by (simp add: handleDeleteItem_def calls_Nil)
next
  case True
  let ?q = "Delete ''prep_items'' [(''id'', Str i)]"
  obtain res db1 where x: "exec ?q db = (res, db1)" by (cases "exec ?q db")
  obtain evs s2 db2 where f: "fetchData exec user s s db1 = (evs, s2, db2)"
    by (cases "fetchData exec user s s db1")
  from fetchData_no_type [OF f] True x f show ?thesis
    by (cases res)
       (simp_all add: handleDeleteItem_def Let_def calls_Cons_Call calls_Cons_Toast calls_Nil
                      sets_item_type_def)
qed

lemma handleSaveFolder_no_type:
  "\<forall>q \<in> set (calls (fst (handleSaveFolder exec user now s db))). \<not> sets_item_type q"
proof (cases "truthy (trim (folderName s))")
  case False then show ?thesis by (simp add: handleSaveFolder_def calls_Cons_Toast calls_Nil)
next
  case v: True
  show ?thesis
  proof (cases "editingFolder s")
    case None
    let ?q = "Insert ''prep_folders'' (user_id_entry user @
                [(''name'', Str (folderName s)), (''parent_id'', js_opt (selectedFolderId s))]) True"
    obtain res db1 where x: "exec ?q db = (res, db1)" by (cases "exec ?q db")
    show ?thesis
    proof (cases "single res")
      case (Inl m)
      with v None x show ?thesis
        by (simp add: handleSaveFolder_def Let_def calls_Cons_Call calls_Cons_Toast calls_Nil
                      sets_item_type_def)
    next
      case (Inr data)
      let ?s1 = "handleCloseModal (s\<lparr>folders := folders s @ [PrepFolder_of data]\<rparr>)"
      obtain evs s2 db2 where f: "fetchData exec user s ?s1 db1 = (evs, s2, db2)"
        by (cases "fetchData exec user s ?s1 db1")
      from fetchData_no_type [OF f] Inr v None x f show ?thesis
        by (simp add: handleSaveFolder_def Let_def calls_Cons_Call calls_Cons_Toast sets_item_type_def)
    qed
  next
    case (Some ef)
    let ?q = "Update ''prep_folders'' [(''name'', Str (folderName s)), (''updated_at'', Str now)]
                [(''id'', Str (fid ef))]"
    let ?s1 = "handleCloseModal (s\<lparr>folders := map (\<lambda>f. if fid f = fid ef then f\<lparr>name := folderName s\<rparr> else f)
                                                       (folders s)\<rparr>)"
    obtain res db1 where x: "exec ?q db = (res, db1)" by (cases "exec ?q db")
    obtain evs s2 db2 where f: "fetchData exec user s ?s1 db1 = (evs, s2, db2)"
      by (cases "fetchData exec user s ?s1 db1")
    from fetchData_no_type [OF f] v Some x f show ?thesis
      by (cases res)
         (simp_all add: handleSaveFolder_def Let_def calls_Cons_Call calls_Cons_Toast calls_Nil
                        sets_item_type_def)
  qed
qed

lemma handleSaveItem_no_type:
  "\<forall>q \<in> set (calls (fst (handleSaveItem exec user now s db))). \<not> sets_item_type q"
proof (cases "truthy (trim (title (formData s))) \<and> truthy_opt (selectedFolderId s)")
  case False then show ?thesis by (auto simp: handleSaveItem_def calls_Cons_Toast calls_Nil)
next
  case v: True
  let ?q = "case editingItem s of
              Some ei \<Rightarrow> Update ''prep_items'' (formData_object (formData s) @ [(''updated_at'', Str now)])
                           [(''id'', Str (iid ei))]
            | None \<Rightarrow> Insert ''prep_items'' (user_id_entry user @
                         [(''folder_id'', js_opt (selectedFolderId s)),
                          (''type'', Str (mode_string (modalMode s)))] @
                         formData_object (formData s)) False"
  have q: "\<not> sets_item_type ?q"
    by (simp add: sets_item_type_def formData_object_no_type split: option.splits)
  obtain res db1 where x: "exec ?q db = (res, db1)" by (cases "exec ?q db")
  obtain evs s2 db2 where f: "fetchData exec user s (handleCloseModal s) db1 = (evs, s2, db2)"
    by (cases "fetchData exec user s (handleCloseModal s) db1")
  from fetchData_no_type [OF f] v q x f show ?thesis
    by (cases res)
       (simp_all add: handleSaveItem_def Let_def calls_Cons_Call calls_Cons_Toast calls_Nil)
qed

text \<open>
  Claim C9. A row that is inserted into \<open>prep_items\<close> has the type \<open>story\<close> or the type
  \<open>note\<close>, or the insert is rejected. Saving an edited item makes no call other than one
  update of \<open>prep_items\<close>, whose payload has no \<open>type\<close> key, and the selects of the
  refetch; an update whose payload has no \<open>type\<close> key leaves the type of every stored item
  as it was; and so after saving an edited item every stored item has the identifier and
  the type that it had before. No handler of the page makes a call that assigns the
  \<open>type\<close> column.
\<close>

theorem item_type_fixed_at_creation:
  "(\<forall>rows db1. pg_insert caller g ''prep_items'' payload db = (Success rows, db1) \<longrightarrow>
      (\<forall>r \<in> set rows. r ''type'' = Some (Str ''story'') \<or> r ''type'' = Some (Str ''note''))) \<and>
   (\<forall>ei. editingItem s = Some ei \<longrightarrow>
      (\<forall>q \<in> set (calls (fst (handleSaveItem exec user now s db0))).
         case q of Update t p fs \<Rightarrow> t = ''prep_items'' \<and> ''type'' \<notin> set (map fst p)
                 | Select t fs ord \<Rightarrow> True | _ \<Rightarrow> False)) \<and>
   (\<forall>p fs res db1. ''type'' \<notin> set (map fst p) \<longrightarrow>
      pg_update caller ''prep_items'' p fs db = (res, db1) \<longrightarrow>
      map (\<lambda>r. r ''type'') (db1 ''prep_items'') = map (\<lambda>r. r ''type'') (db ''prep_items'')) \<and>
   (\<forall>ei. editingItem s = Some ei \<longrightarrow>
      map (\<lambda>r. (r ''id'', r ''type''))
          (snd (snd (handleSaveItem (pg_exec caller g) user now s db)) ''prep_items'') =
      map (\<lambda>r. (r ''id'', r ''type'')) (db ''prep_items'')) \<and>
   (\<forall>q \<in> set (calls (fst (handleSaveFolder exec user now s db0)) @
               calls (fst (handleSaveItem exec user now s db0)) @
               calls (fst (handleDeleteFolder exec user i confirmed s db0)) @
               calls (fst (handleDeleteItem exec user i confirmed s db0)) @
               calls (fst (createRootFolder exec user s db0)) @
               calls (fst (fetchData exec user c s db0))). \<not> sets_item_type q)"
proof (intro conjI allI impI)
  fix rows db1 assume "pg_insert caller g ''prep_items'' payload db = (Success rows, db1)"
  from pg_insert_checked [OF this]
  show "\<forall>r \<in> set rows. r ''type'' = Some (Str ''story'') \<or> r ''type'' = Some (Str ''note'')"
    using prep_items_type_checked by blast
next
  fix ei assume e: "editingItem s = Some ei"
  let ?q = "Update ''prep_items'' (formData_object (formData s) @ [(''updated_at'', Str now)])
              [(''id'', Str (iid ei))]"
  obtain res db1 where x: "exec ?q db0 = (res, db1)" by (cases "exec ?q db0")
  show "\<forall>q \<in> set (calls (fst (handleSaveItem exec user now s db0))).
         case q of Update t p fs \<Rightarrow> t = ''prep_items'' \<and> ''type'' \<notin> set (map fst p)
                 | Select t fs ord \<Rightarrow> True | _ \<Rightarrow> False"
  proof (cases res)
    case (Failure m)
    with e x show ?thesis
      by (simp add: handleSaveItem_def Let_def calls_Cons_Call calls_Cons_Toast calls_Nil
                    formData_object_no_type)
  next
    case (Success rows)
    obtain evs s2 db2 where f: "fetchData exec user s (handleCloseModal s) db1 = (evs, s2, db2)"
      by (cases "fetchData exec user s (handleCloseModal s) db1")
    with calls_fetchData [of exec user s "handleCloseModal s" db1]
    have "list_all is_select (calls evs)" by simp
    then have "\<forall>q \<in> set (calls evs). case q of Update t p fs \<Rightarrow> t = ''prep_items'' \<and> ''type'' \<notin> set (map fst p)
                 | Select t fs ord \<Rightarrow> True | _ \<Rightarrow> False"
      by (auto simp: list_all_iff split: request.splits)
    with Success e x f show ?thesis
      by (simp add: handleSaveItem_def Let_def calls_Cons_Call calls_Cons_Toast calls_Nil
                    formData_object_no_type)
  qed
next
  fix p fs res db1
  assume "''type'' \<notin> set (map fst p)" "pg_update caller ''prep_items'' p fs db = (res, db1)"
  from pg_update_keeps_column [OF this]
  show "map (\<lambda>r. r ''type'') (db1 ''prep_items'') = map (\<lambda>r. r ''type'') (db ''prep_items'')" .
next
  fix ei assume e: "editingItem s = Some ei"
  let ?p = "formData_object (formData s) @ [(''updated_at'', Str now)]"
  let ?q = "Update ''prep_items'' ?p [(''id'', Str (iid ei))]"
  obtain res db1 where u: "pg_update caller ''prep_items'' ?p [(''id'', Str (iid ei))] db = (res, db1)"
    by (cases "pg_update caller ''prep_items'' ?p [(''id'', Str (iid ei))] db")
  have t: "''type'' \<notin> set (map fst ?p)" and i: "''id'' \<notin> set (map fst ?p)"
    by (simp_all only: edit_payload_keys) simp_all
  have k: "map (\<lambda>r. (r ''id'', r ''type'')) (db1 ''prep_items'') =
           map (\<lambda>r. (r ''id'', r ''type'')) (db ''prep_items'')"
    using pg_update_keeps_column [OF t u, of "''prep_items''"]
          pg_update_keeps_column [OF i u, of "''prep_items''"]
    by (simp add: list_eq_iff_nth_eq)
  have x: "pg_exec caller g ?q db = (res, db1)"
    using u by (simp add: pg_exec_def tables_def)
  have "snd (snd (handleSaveItem (pg_exec caller g) user now s db)) = db \<or>
        snd (snd (handleSaveItem (pg_exec caller g) user now s db)) = db1"
  proof (cases res)
    case (Failure m)
    with e x show ?thesis by (simp add: handleSaveItem_def Let_def)
  next
    case (Success rows)
    obtain evs s2 db2 where f: "fetchData (pg_exec caller g) user s (handleCloseModal s) db1 = (evs, s2, db2)"
      by (cases "fetchData (pg_exec caller g) user s (handleCloseModal s) db1")
    with fetchData_pg_db [of caller g user s "handleCloseModal s" db1] have "db2 = db1" by simp
    with Success e x f show ?thesis by (simp add: handleSaveItem_def Let_def)
  qed
  with k show "map (\<lambda>r. (r ''id'', r ''type''))
          (snd (snd (handleSaveItem (pg_exec caller g) user now s db)) ''prep_items'') =
      map (\<lambda>r. (r ''id'', r ''type'')) (db ''prep_items'')"
    by auto
next
  obtain evs s' db' where f: "fetchData exec user c s db0 = (evs, s', db')"
    by (cases "fetchData exec user c s db0")
  from fetchData_no_type [OF f] f
  have "\<forall>q \<in> set (calls (fst (fetchData exec user c s db0))). \<not> sets_item_type q" by simp
  then show "\<forall>q \<in> set (calls (fst (handleSaveFolder exec user now s db0)) @
               calls (fst (handleSaveItem exec user now s db0)) @
               calls (fst (handleDeleteFolder exec user i confirmed s db0)) @
               calls (fst (handleDeleteItem exec user i confirmed s db0)) @
               calls (fst (createRootFolder exec user s db0)) @
               calls (fst (fetchData exec user c s db0))). \<not> sets_item_type q"
    using handleSaveFolder_no_type [of exec user now s db0]
          handleSaveItem_no_type [of exec user now s db0]
          handleDeleteFolder_no_type [of exec user i confirmed s db0]
          handleDeleteItem_no_type [of exec user i confirmed s db0]
          createRootFolder_no_type [of exec user s db0]
    unfolding set_append by blast
qed

lemma note_insert_ok:
  "set (map fst note_payload) \<subseteq> set (table_columns ''prep_items'') \<and>
   rls_with_check (Some ''u1'') ''prep_items'' INSERT note_row \<and>
   constraints_ok (example_db(''prep_items'' := example_db ''prep_items'' @ [note_row])) ''prep_items''"
  by code_simp

lemma note_insert:
  "pg_insert (Some ''u1'') gen0 ''prep_items'' note_payload example_db =
     (Success [note_row], example_db(''prep_items'' := example_db ''prep_items'' @ [note_row]))"
  using note_insert_ok by (simp add: pg_insert_def Let_def note_row_def)

theorem item_type_fixed_at_creation_witness:
  "pg_insert (Some ''u1'') gen0 ''prep_items'' note_payload example_db =
     (Success [note_row], example_db(''prep_items'' := example_db ''prep_items'' @ [note_row])) \<and>
   (note_row ''type'' = Some (Str ''story'') \<or> note_row ''type'' = Some (Str ''note'')) \<and>
   editingItem edit_state = Some itemX \<and>
   map (\<lambda>r. (r ''id'', r ''type''))
       (snd (snd (handleSaveItem (pg_exec (Some ''u1'') gen0) (Some ''u1'') ''t1'' edit_state example_db))
          ''prep_items'') =
     [(Some (Str ''x''), Some (Str ''story''))]"
proof -
  have e: "editingItem edit_state = Some itemX" by (simp add: edit_state_def initial_state_def)
  have d: "map (\<lambda>r. (r ''id'', r ''type'')) (example_db ''prep_items'') = [(Some (Str ''x''), Some (Str ''story''))]"
    by (simp add: example_db_def item_row_def)
  note t = item_type_fixed_at_creation
         [of "Some ''u1''" gen0 note_payload example_db edit_state "pg_exec (Some ''u1'') gen0"
             "Some ''u1''" "''t1''" example_db]
  from t note_insert have "\<forall>r \<in> set [note_row]. r ''type'' = Some (Str ''story'') \<or> r ''type'' = Some (Str ''note'')"
    by blast
  then have 1: "note_row ''type'' = Some (Str ''story'') \<or> note_row ''type'' = Some (Str ''note'')"
    by simp
  from t e have "map (\<lambda>r. (r ''id'', r ''type''))
       (snd (snd (handleSaveItem (pg_exec (Some ''u1'') gen0) (Some ''u1'') ''t1'' edit_state example_db))
          ''prep_items'') = map (\<lambda>r. (r ''id'', r ''type'')) (example_db ''prep_items'')"
    by blast
  with d have 2: "map (\<lambda>r. (r ''id'', r ''type''))
       (snd (snd (handleSaveItem (pg_exec (Some ''u1'') gen0) (Some ''u1'') ''t1'' edit_state example_db))
          ''prep_items'') = [(Some (Str ''x''), Some (Str ''story''))]"
    by (simp only:)
  from note_insert 1 e 2 show ?thesis by (intro conjI)
qed

section \<open>Deleting a folder\<close>

lemma column_eq_iff: "column_eq r col v \<longleftrightarrow> r col = Some v \<and> v \<noteq> Null"
proof (cases "r col")
  case None then show ?thesis by (simp add: column_eq_def)
next
  case (Some x) then show ?thesis by (auto simp add: column_eq_def sql_eq_def)
qed

lemma parent_edge_iff:
  "(a, p) \<in> set (parent_edge r) \<longleftrightarrow> key_of r = a \<and> column_eq r ''parent_id'' p"
proof (cases "r ''parent_id''")
  case None then show ?thesis by (simp add: parent_edge_def column_eq_iff)
next
  case (Some x) then show ?thesis by (auto simp add: parent_edge_def column_eq_iff)
qed

lemma edges_of_iff:
  "(a, p) \<in> edges_of rows \<longleftrightarrow> (\<exists>r \<in> set rows. key_of r = a \<and> column_eq r ''parent_id'' p)"
  by (simp add: edges_of_def parent_edge_iff)

lemma edges_of_mono:
  assumes "set rows' \<subseteq> set rows"
  shows "edges_of rows' \<subseteq> edges_of rows"
proof
  fix e assume e: "e \<in> edges_of rows'"
  obtain a p where ap: "e = (a, p)" by (cases e)
  from e [unfolded ap edges_of_iff]
  obtain r where "r \<in> set rows'" "key_of r = a" "column_eq r ''parent_id'' p" by blast
  with assms have "\<exists>r \<in> set rows. key_of r = a \<and> column_eq r ''parent_id'' p" by blast
  then show "e \<in> edges_of rows" unfolding ap edges_of_iff .
qed

text \<open>
  Deleting the children of \<open>k\<close>: a key from which parent references led to a key of \<open>K\<close>
  or to \<open>k\<close> is \<open>k\<close> itself, or still leads to a key of \<open>K\<close> or to a deleted child.
\<close>

lemma reach_after_step:
  fixes rows :: "row list" and k :: jsval
  defines "rows' \<equiv> filter (\<lambda>r. \<not> column_eq r ''parent_id'' k) rows"
  defines "C \<equiv> key_of ` {c \<in> set rows. column_eq c ''parent_id'' k}"
  shows "(\<exists>k' \<in> insert k K. (v, k') \<in> (edges_of rows)\<^sup>*) \<longleftrightarrow>
         v = k \<or> (\<exists>k' \<in> K \<union> C. (v, k') \<in> (edges_of rows')\<^sup>*)"
proof
  assume "v = k \<or> (\<exists>k' \<in> K \<union> C. (v, k') \<in> (edges_of rows')\<^sup>*)"
  then show "\<exists>k' \<in> insert k K. (v, k') \<in> (edges_of rows)\<^sup>*"
  proof
    assume "v = k" then show ?thesis by blast
  next
    assume "\<exists>k' \<in> K \<union> C. (v, k') \<in> (edges_of rows')\<^sup>*"
    then obtain k' where k': "k' \<in> K \<union> C" "(v, k') \<in> (edges_of rows')\<^sup>*" by blast
    have sub: "edges_of rows' \<subseteq> edges_of rows" unfolding rows'_def by (rule edges_of_mono) simp
    from k'(2) have p: "(v, k') \<in> (edges_of rows)\<^sup>*" using rtrancl_mono [OF sub] by blast
    from k'(1) show ?thesis
    proof
      assume "k' \<in> K" with p show ?thesis by blast
    next
      assume "k' \<in> C"
      then obtain c where "c \<in> set rows" "column_eq c ''parent_id'' k" "k' = key_of c"
        unfolding C_def by blast
      then have "(k', k) \<in> edges_of rows" unfolding edges_of_iff by blast
      with p have "(v, k) \<in> (edges_of rows)\<^sup>*" by (rule rtrancl_into_rtrancl)
      then show ?thesis by blast
    qed
  qed
next
  assume "\<exists>k' \<in> insert k K. (v, k') \<in> (edges_of rows)\<^sup>*"
  then obtain k'' where k'': "k'' \<in> insert k K" "(v, k'') \<in> (edges_of rows)\<^sup>*" by blast
  have path: "(v, k'') \<in> (edges_of rows')\<^sup>* \<or> (\<exists>c \<in> C. (v, c) \<in> (edges_of rows')\<^sup>*)"
    using k''(2)
  proof (induction rule: converse_rtrancl_induct)
    case base show ?case by blast
  next
    case (step a z)
    from step.hyps(1) obtain r where r: "r \<in> set rows" "key_of r = a" "column_eq r ''parent_id'' z"
      unfolding edges_of_iff by blast
    show ?case
    proof (cases "column_eq r ''parent_id'' k")
      case True
      with r have "a \<in> C" unfolding C_def by blast
      then show ?thesis by blast
    next
      case False
      with r have "r \<in> set rows'" unfolding rows'_def by simp
      with r have e: "(a, z) \<in> edges_of rows'" unfolding edges_of_iff by blast
      from step.IH show ?thesis
      proof
        assume "(z, k'') \<in> (edges_of rows')\<^sup>*"
        with e have "(a, k'') \<in> (edges_of rows')\<^sup>*" by (rule converse_rtrancl_into_rtrancl)
        then show ?thesis ..
      next
        assume "\<exists>c \<in> C. (z, c) \<in> (edges_of rows')\<^sup>*"
        then obtain c where "c \<in> C" "(z, c) \<in> (edges_of rows')\<^sup>*" by blast
        with e have "c \<in> C \<and> (a, c) \<in> (edges_of rows')\<^sup>*"
          by (simp add: converse_rtrancl_into_rtrancl)
        then show ?thesis by blast
      qed
    qed
  qed
  have no_edge: "(a, k) \<notin> edges_of rows'" for a
    unfolding edges_of_iff rows'_def by simp
  from path show "v = k \<or> (\<exists>k' \<in> K \<union> C. (v, k') \<in> (edges_of rows')\<^sup>*)"
  proof
    assume "\<exists>c \<in> C. (v, c) \<in> (edges_of rows')\<^sup>*" then show ?thesis by blast
  next
    assume p: "(v, k'') \<in> (edges_of rows')\<^sup>*"
    show ?thesis
    proof (cases "k'' = k")
      case False with k''(1) p show ?thesis by blast
    next
      case True
      with p have "(v, k) \<in> (edges_of rows')\<^sup>*" by simp
      then have "v = k \<or> (\<exists>a. (a, k) \<in> edges_of rows')" by (cases rule: rtranclE) blast+
      with no_edge show ?thesis by blast
    qed
  qed
qed

lemma referencing_prep_folders:
  "referencing ''prep_folders'' =
     [\<lparr>fk_table = ''prep_folders'', fk_column = ''parent_id'', fk_references = ''prep_folders'', fk_on_delete_cascade = True\<rparr>,
      \<lparr>fk_table = ''prep_items'', fk_column = ''folder_id'', fk_references = ''prep_folders'', fk_on_delete_cascade = True\<rparr>]"
  by (simp add: referencing_def foreign_keys_def)

lemma referencing_prep_items: "referencing ''prep_items'' = []"
  by (simp add: referencing_def foreign_keys_def)

lemma refers_prep_folders:
  "refers ''prep_folders'' k t' r \<longleftrightarrow>
     (t' = ''prep_folders'' \<and> column_eq r ''parent_id'' k) \<or>
     (t' = ''prep_items'' \<and> column_eq r ''folder_id'' k)"
  unfolding refers_def referencing_prep_folders by auto

lemma refers_prep_items: "\<not> refers ''prep_items'' k t' r"
  unfolding refers_def referencing_prep_items by simp

lemma filter_step:
  assumes "\<And>v. R v \<longleftrightarrow> v = k \<or> R' v"
  shows "filter (\<lambda>r. \<not> (\<exists>v. column_eq r col v \<and> R' v)) (filter (\<lambda>r. \<not> column_eq r col k) xs) =
         filter (\<lambda>r. \<not> (\<exists>v. column_eq r col v \<and> R v)) xs"
  unfolding filter_filter by (rule filter_cong [OF refl]) (auto simp: assms)

lemma refers_prep_folders_fun:
  "refers ''prep_folders'' k ''prep_folders'' = (\<lambda>r. column_eq r ''parent_id'' k)"
  "refers ''prep_folders'' k ''prep_items'' = (\<lambda>r. column_eq r ''folder_id'' k)"
  "refers ''prep_folders'' k ''profiles'' = (\<lambda>r. False)"
  "refers ''prep_folders'' k ''jobs'' = (\<lambda>r. False)"
  "refers ''prep_folders'' k ''stories'' = (\<lambda>r. False)"
  "refers ''prep_folders'' k ''notes'' = (\<lambda>r. False)"
  by (rule ext, simp add: refers_prep_folders)+

lemma new_work_prep_folders:
  "concat (map (\<lambda>t'. map (\<lambda>r. (t', key_of r)) (filter (refers ''prep_folders'' k t') (db t'))) tables) =
     map (\<lambda>r. (''prep_folders'', key_of r)) (filter (\<lambda>r. column_eq r ''parent_id'' k) (db ''prep_folders'')) @
     map (\<lambda>r. (''prep_items'', key_of r)) (filter (\<lambda>r. column_eq r ''folder_id'' k) (db ''prep_items''))"
  by (simp add: tables_def refers_prep_folders_fun)

lemma new_work_prep_items:
  "concat (map (\<lambda>t'. map (\<lambda>r. (t', key_of r)) (filter (refers ''prep_items'' k t') (db t'))) tables) = []"
  by (simp add: tables_def refers_prep_items)

lemma cascade_prep_items_step:
  "cascade ((''prep_items'', k) # work) db = cascade work db"
proof -
  have "(\<lambda>t'. filter (\<lambda>r. \<not> refers ''prep_items'' k t' r) (db t')) = db"
    by (simp add: refers_prep_items)
  then show ?thesis by (simp add: new_work_prep_items)
qed

lemma cascade_prep_folders_step:
  "cascade ((''prep_folders'', k) # work) db =
     cascade (work @
              map (\<lambda>r. (''prep_folders'', key_of r)) (filter (\<lambda>r. column_eq r ''parent_id'' k) (db ''prep_folders'')) @
              map (\<lambda>r. (''prep_items'', key_of r)) (filter (\<lambda>r. column_eq r ''folder_id'' k) (db ''prep_items'')))
             (db(''prep_folders'' := filter (\<lambda>r. \<not> column_eq r ''parent_id'' k) (db ''prep_folders''),
                 ''prep_items'' := filter (\<lambda>r. \<not> column_eq r ''folder_id'' k) (db ''prep_items'')))"
proof -
  have "(\<lambda>t'. filter (\<lambda>r. \<not> refers ''prep_folders'' k t' r) (db t')) =
        db(''prep_folders'' := filter (\<lambda>r. \<not> column_eq r ''parent_id'' k) (db ''prep_folders''),
           ''prep_items'' := filter (\<lambda>r. \<not> column_eq r ''folder_id'' k) (db ''prep_items''))"
    by (rule ext) (simp add: refers_prep_folders)
  then show ?thesis by (simp add: new_work_prep_folders)
qed

lemma cascade_prep:
  assumes "\<forall>(t, k) \<in> set work. t = ''prep_folders'' \<or> t = ''prep_items''"
  shows "cascade work db =
           db(''prep_folders'' := filter (\<lambda>r. \<not> below db (pending work) ''parent_id'' r) (db ''prep_folders''),
              ''prep_items'' := filter (\<lambda>r. \<not> below db (pending work) ''folder_id'' r) (db ''prep_items''))"
  using assms
proof (induction work db rule: cascade.induct)
  case (1 db)
  show ?case by (rule ext) (simp add: pending_def below_def)
next
  case (2 t k work db)
  from "2.prems" have t: "t = ''prep_folders'' \<or> t = ''prep_items''"
    and w: "\<forall>(t, k) \<in> set work. t = ''prep_folders'' \<or> t = ''prep_items''" by auto
  from t show ?case
  proof
    assume ti: "t = ''prep_items''"
    have p: "pending ((''prep_items'', k) # work) = pending work" by (simp add: pending_def)
    have dbeq: "(\<lambda>t'. filter (\<lambda>r. \<not> refers ''prep_items'' k t' r) (db t')) = db"
      by (simp add: refers_prep_items)
    have fx: "filter (\<lambda>r. \<not> refers ''prep_items'' k t' r) xs = xs" for t' xs
      by (simp add: refers_prep_items)
    from "2.IH" [unfolded ti new_work_prep_items dbeq append_Nil2 fx, OF w]
    have "cascade work db =
           db(''prep_folders'' := filter (\<lambda>r. \<not> below db (pending work) ''parent_id'' r) (db ''prep_folders''),
              ''prep_items'' := filter (\<lambda>r. \<not> below db (pending work) ''folder_id'' r) (db ''prep_items''))" .
    then show ?thesis unfolding ti p cascade_prep_items_step .
  next
    assume tf: "t = ''prep_folders''"
    let ?F = "db ''prep_folders''" and ?I = "db ''prep_items''"
    let ?F' = "filter (\<lambda>r. \<not> column_eq r ''parent_id'' k) ?F"
    let ?I' = "filter (\<lambda>r. \<not> column_eq r ''folder_id'' k) ?I"
    let ?db' = "db(''prep_folders'' := ?F', ''prep_items'' := ?I')"
    let ?work' = "work @
              map (\<lambda>r. (''prep_folders'', key_of r)) (filter (\<lambda>r. column_eq r ''parent_id'' k) ?F) @
              map (\<lambda>r. (''prep_items'', key_of r)) (filter (\<lambda>r. column_eq r ''folder_id'' k) ?I)"
    let ?C = "key_of ` {c \<in> set ?F. column_eq c ''parent_id'' k}"
    have dbeq: "(\<lambda>t'. filter (\<lambda>r. \<not> refers ''prep_folders'' k t' r) (db t')) = ?db'"
      by (rule ext) (simp add: refers_prep_folders)
    have w': "\<forall>(t, k) \<in> set ?work'. t = ''prep_folders'' \<or> t = ''prep_items''"
      using w by auto
    from "2.IH" [unfolded tf new_work_prep_folders dbeq refers_prep_folders_fun, OF w']
    have ih: "cascade ?work' ?db' =
           ?db'(''prep_folders'' := filter (\<lambda>r. \<not> below ?db' (pending ?work') ''parent_id'' r) ?F',
                ''prep_items'' := filter (\<lambda>r. \<not> below ?db' (pending ?work') ''folder_id'' r) ?I')" .
    have pw': "pending ?work' = pending work \<union> ?C"
      by (auto simp: pending_def)
    have pw: "pending ((t, k) # work) = insert k (pending work)"
      by (auto simp: pending_def tf)
    have e': "folder_edges ?db' = edges_of ?F'" and e: "folder_edges db = edges_of ?F"
      by (simp_all add: folder_edges_def)
    have r: "(\<exists>k' \<in> insert k (pending work). (v, k') \<in> (folder_edges db)\<^sup>*) \<longleftrightarrow>
             v = k \<or> (\<exists>k' \<in> pending work \<union> ?C. (v, k') \<in> (folder_edges ?db')\<^sup>*)" for v
      unfolding e e' by (rule reach_after_step)
    have f: "filter (\<lambda>r. \<not> below ?db' (pending ?work') ''parent_id'' r) ?F' =
             filter (\<lambda>r. \<not> below db (pending ((t, k) # work)) ''parent_id'' r) ?F"
      unfolding below_def pw pw' by (rule filter_step) (rule r)
    have i: "filter (\<lambda>r. \<not> below ?db' (pending ?work') ''folder_id'' r) ?I' =
             filter (\<lambda>r. \<not> below db (pending ((t, k) # work)) ''folder_id'' r) ?I"
      unfolding below_def pw pw' by (rule filter_step) (rule r)
    have "cascade ((t, k) # work) db = cascade ?work' ?db'"
      unfolding tf by (rule cascade_prep_folders_step)
    also have "\<dots> = ?db'(''prep_folders'' := filter (\<lambda>r. \<not> below ?db' (pending ?work') ''parent_id'' r) ?F',
                ''prep_items'' := filter (\<lambda>r. \<not> below ?db' (pending ?work') ''folder_id'' r) ?I')"
      by (rule ih)
    also have "\<dots> = db(''prep_folders'' := filter (\<lambda>r. \<not> below db (pending ((t, k) # work)) ''parent_id'' r) ?F,
                ''prep_items'' := filter (\<lambda>r. \<not> below db (pending ((t, k) # work)) ''folder_id'' r) ?I)"
      unfolding f i by (rule ext) simp
    finally show ?thesis .
  qed
qed

lemma rls_using_prep_folders:
  "cmd \<noteq> INSERT \<Longrightarrow> rls_using (Some u) ''prep_folders'' cmd r \<longleftrightarrow> r ''user_id'' = Some (Str u)"
  unfolding rls_using_def policies_def own_rows_policies_def
  by (cases cmd) (simp_all add: auth_uid_is_def)

lemma matches_id: "matches [(''id'', Str x)] r \<longleftrightarrow> r ''id'' = Some (Str x)"
  by (simp add: matches_def column_eq_iff)

lemma key_of_id: "r ''id'' = Some v \<Longrightarrow> key_of r = v"
  by (simp add: key_of_def)

lemma key_inj:
  "distinct (map key_of rows) \<Longrightarrow> r \<in> set rows \<Longrightarrow> r' \<in> set rows \<Longrightarrow> key_of r = key_of r' \<Longrightarrow> r = r'"
  by (meson distinct_map inj_onD)

text \<open>Deleting rows with the key \<open>x\<close> does not cut a path of parent references that ends at \<open>x\<close>.\<close>

lemma reach_without_target:
  assumes "\<And>r. r \<in> set rows \<Longrightarrow> hit r \<Longrightarrow> key_of r = x"
  shows "(v, x) \<in> (edges_of rows)\<^sup>* \<longleftrightarrow> (v, x) \<in> (edges_of (filter (\<lambda>r. \<not> hit r) rows))\<^sup>*"
proof
  assume "(v, x) \<in> (edges_of (filter (\<lambda>r. \<not> hit r) rows))\<^sup>*"
  moreover have "edges_of (filter (\<lambda>r. \<not> hit r) rows) \<subseteq> edges_of rows"
    by (rule edges_of_mono) simp
  ultimately show "(v, x) \<in> (edges_of rows)\<^sup>*" using rtrancl_mono by blast
next
  assume "(v, x) \<in> (edges_of rows)\<^sup>*"
  then show "(v, x) \<in> (edges_of (filter (\<lambda>r. \<not> hit r) rows))\<^sup>*"
  proof (induction rule: converse_rtrancl_induct)
    case base show ?case by simp
  next
    case (step a z)
    show ?case
    proof (cases "a = x")
      case True then show ?thesis by simp
    next
      case False
      from step.hyps(1) obtain r where r: "r \<in> set rows" "key_of r = a" "column_eq r ''parent_id'' z"
        unfolding edges_of_iff by blast
      with False assms have "\<not> hit r" by blast
      with r have "r \<in> set (filter (\<lambda>r. \<not> hit r) rows)" by simp
      with r have "(a, z) \<in> edges_of (filter (\<lambda>r. \<not> hit r) rows)" unfolding edges_of_iff by blast
      then show ?thesis using step.IH by (rule converse_rtrancl_into_rtrancl)
    qed
  qed
qed

lemma pg_delete_prep_folders:
  assumes d: "distinct (map key_of (db ''prep_folders''))"
    and f: "f \<in> set (db ''prep_folders'')" "f ''id'' = Some (Str x)" "f ''user_id'' = Some (Str u)"
  shows "snd (pg_delete (Some u) ''prep_folders'' [(''id'', Str x)] db) =
           db(''prep_folders'' := filter (\<lambda>r. \<not> in_subtree db (Str x) (key_of r)) (db ''prep_folders''),
              ''prep_items'' := filter (\<lambda>i. \<not> (\<exists>r \<in> set (db ''prep_folders'').
                                     in_subtree db (Str x) (key_of r) \<and> column_eq i ''folder_id'' (key_of r)))
                                  (db ''prep_items''))"
proof -
  let ?F = "db ''prep_folders''" and ?I = "db ''prep_items''"
  let ?hit = "\<lambda>r. rls_using (Some u) ''prep_folders'' SELECT r \<and> rls_using (Some u) ''prep_folders'' DELETE r \<and>
                   matches [(''id'', Str x)] r"
  let ?F1 = "filter (\<lambda>r. \<not> ?hit r) ?F"
  let ?db1 = "db(''prep_folders'' := ?F1)"
  let ?work = "map (\<lambda>r. (''prep_folders'', key_of r)) (filter ?hit ?F)"
  let ?E = "edges_of ?F"
  have hit: "?hit r \<longleftrightarrow> r ''user_id'' = Some (Str u) \<and> r ''id'' = Some (Str x)" for r
    by (simp add: rls_using_prep_folders matches_id)
  have hitf: "?hit f" using f by (simp add: hit)
  have hkey: "key_of r = Str x" if "?hit r" for r using that by (simp add: hit key_of_id)
  have K: "pending ?work = {Str x}"
  proof -
    have "pending ?work = key_of ` {r \<in> set ?F. ?hit r}" by (auto simp: pending_def)
    also have "\<dots> = {Str x}" using hitf f(1) hkey by (auto simp: image_iff)
    finally show ?thesis .
  qed
  have w: "\<forall>(t, k) \<in> set ?work. t = ''prep_folders'' \<or> t = ''prep_items''" by auto
  have E1: "folder_edges ?db1 = edges_of ?F1" and E: "folder_edges db = ?E"
    by (simp_all add: folder_edges_def)
  have reach: "(v, Str x) \<in> (edges_of ?F1)\<^sup>* \<longleftrightarrow> (v, Str x) \<in> ?E\<^sup>*" for v
    using reach_without_target [of ?F ?hit "Str x" v] hkey by blast
  have sub: "in_subtree db (Str x) v \<longleftrightarrow> (v, Str x) \<in> ?E\<^sup>*" for v
    unfolding in_subtree_def E by (metis rtrancl_eq_or_trancl)
  have below1: "below ?db1 {Str x} col r \<longleftrightarrow> (\<exists>v. column_eq r col v \<and> (v, Str x) \<in> ?E\<^sup>*)" for col r
    unfolding below_def E1 using reach by auto
  have folders: "(\<not> ?hit r \<and> \<not> below ?db1 {Str x} ''parent_id'' r) \<longleftrightarrow> \<not> in_subtree db (Str x) (key_of r)"
    if r: "r \<in> set ?F" for r
  proof -
    have "?hit r \<or> below ?db1 {Str x} ''parent_id'' r \<longleftrightarrow> (key_of r, Str x) \<in> ?E\<^sup>*"
    proof
      assume "?hit r \<or> below ?db1 {Str x} ''parent_id'' r"
      then show "(key_of r, Str x) \<in> ?E\<^sup>*"
      proof
        assume "?hit r" then show ?thesis by (simp add: hkey)
      next
        assume "below ?db1 {Str x} ''parent_id'' r"
        then obtain v where v: "column_eq r ''parent_id'' v" "(v, Str x) \<in> ?E\<^sup>*"
          unfolding below1 by blast
        from v(1) r have "(key_of r, v) \<in> ?E" unfolding edges_of_iff by blast
        then show ?thesis using v(2) by (rule converse_rtrancl_into_rtrancl)
      qed
    next
      assume "(key_of r, Str x) \<in> ?E\<^sup>*"
      then show "?hit r \<or> below ?db1 {Str x} ''parent_id'' r"
      proof (cases rule: converse_rtranclE)
        case base
        with hkey [OF hitf] have "key_of r = key_of f" by simp
        from key_inj [OF d r f(1) this] hitf show ?thesis by simp
      next
        case (step z)
        from step(1) obtain r' where r': "r' \<in> set ?F" "key_of r' = key_of r" "column_eq r' ''parent_id'' z"
          unfolding edges_of_iff by blast
        from key_inj [OF d r'(1) r r'(2)] r'(3) have "column_eq r ''parent_id'' z" by simp
        with step(2) have "below ?db1 {Str x} ''parent_id'' r" unfolding below1 by blast
        then show ?thesis ..
      qed
    qed
    then show ?thesis unfolding sub by blast
  qed
  have items: "below ?db1 {Str x} ''folder_id'' i \<longleftrightarrow>
                 (\<exists>r \<in> set ?F. in_subtree db (Str x) (key_of r) \<and> column_eq i ''folder_id'' (key_of r))" for i
  proof
    assume "below ?db1 {Str x} ''folder_id'' i"
    then obtain v where v: "column_eq i ''folder_id'' v" "(v, Str x) \<in> ?E\<^sup>*"
      unfolding below1 by blast
    from v(2) have "\<exists>r \<in> set ?F. key_of r = v"
    proof (cases rule: converse_rtranclE)
      case base with f(1) hkey [OF hitf] show ?thesis by blast
    next
      case (step z) then show ?thesis unfolding edges_of_iff by blast
    qed
    then obtain r where "r \<in> set ?F" "key_of r = v" by blast
    with v show "\<exists>r \<in> set ?F. in_subtree db (Str x) (key_of r) \<and> column_eq i ''folder_id'' (key_of r)"
      unfolding sub by blast
  next
    assume "\<exists>r \<in> set ?F. in_subtree db (Str x) (key_of r) \<and> column_eq i ''folder_id'' (key_of r)"
    then show "below ?db1 {Str x} ''folder_id'' i" unfolding below1 sub by blast
  qed
  have "snd (pg_delete (Some u) ''prep_folders'' [(''id'', Str x)] db) = cascade ?work ?db1"
    by (simp add: pg_delete_def Let_def)
  also have "\<dots> = ?db1(''prep_folders'' := filter (\<lambda>r. \<not> below ?db1 {Str x} ''parent_id'' r) (?db1 ''prep_folders''),
                         ''prep_items'' := filter (\<lambda>r. \<not> below ?db1 {Str x} ''folder_id'' r) (?db1 ''prep_items''))"
    using cascade_prep [OF w, of ?db1] unfolding K .
  also have "\<dots> = db(''prep_folders'' := filter (\<lambda>r. \<not> ?hit r \<and> \<not> below ?db1 {Str x} ''parent_id'' r) ?F,
                         ''prep_items'' := filter (\<lambda>r. \<not> below ?db1 {Str x} ''folder_id'' r) ?I)"
    by (rule ext) simp
  also have "filter (\<lambda>r. \<not> ?hit r \<and> \<not> below ?db1 {Str x} ''parent_id'' r) ?F =
             filter (\<lambda>r. \<not> in_subtree db (Str x) (key_of r)) ?F"
    by (rule filter_cong [OF refl]) (rule folders)
  also have "filter (\<lambda>r. \<not> below ?db1 {Str x} ''folder_id'' r) ?I =
             filter (\<lambda>i. \<not> (\<exists>r \<in> set ?F. in_subtree db (Str x) (key_of r) \<and> column_eq i ''folder_id'' (key_of r))) ?I"
    unfolding items ..
  finally show ?thesis .
qed

lemma filter_calls_select:
  "list_all is_select qs \<Longrightarrow> filter (\<lambda>q. \<not> is_select q) qs = []"
  by (simp add: list_all_iff filter_empty_conv)

text \<open>
  Claim C4. Let the store hold a folder with the identifier \<open>x\<close> that belongs to the
  caller, identifiers being unique among the folders. Deleting the folder through the page
  makes a single call that is not a select, the delete of \<open>prep_folders\<close> by the
  identifier \<open>x\<close>; after it the store has lost exactly the folders in the subtree of \<open>x\<close>
  (\<open>x\<close> and every folder from which parent references lead to \<open>x\<close>) and exactly the items
  whose folder is one of those, and every other table is as before. The page deletes
  nothing else itself: the subtree and the items go by the cascade of the foreign keys.
\<close>

theorem delete_folder_cascades:
  assumes "distinct (map key_of (db ''prep_folders''))"
    and "f \<in> set (db ''prep_folders'')" and "f ''id'' = Some (Str x)" and "f ''user_id'' = Some (Str u)"
  shows "\<exists>evs s' db'.
           handleDeleteFolder (pg_exec (Some u) g) user x True s db = (evs, s', db') \<and>
           filter (\<lambda>q. \<not> is_select q) (calls evs) = [Delete ''prep_folders'' [(''id'', Str x)]] \<and>
           db' ''prep_folders'' =
             filter (\<lambda>r. \<not> in_subtree db (Str x) (key_of r)) (db ''prep_folders'') \<and>
           db' ''prep_items'' =
             filter (\<lambda>i. \<not> (\<exists>r \<in> set (db ''prep_folders'').
                               in_subtree db (Str x) (key_of r) \<and> column_eq i ''folder_id'' (key_of r)))
                    (db ''prep_items'') \<and>
           (\<forall>t. t \<noteq> ''prep_folders'' \<and> t \<noteq> ''prep_items'' \<longrightarrow> db' t = db t)"
proof -
  let ?q = "Delete ''prep_folders'' [(''id'', Str x)]"
  let ?db1 = "snd (pg_delete (Some u) ''prep_folders'' [(''id'', Str x)] db)"
  let ?s1 = "if selectedFolderId s = Some x then s\<lparr>selectedFolderId := None\<rparr> else s"
  have x: "pg_exec (Some u) g ?q db = (Success [], ?db1)"
    by (simp add: pg_exec_def tables_def pg_delete_def Let_def)
  obtain evs s2 db2 where fd: "fetchData (pg_exec (Some u) g) user s ?s1 ?db1 = (evs, s2, db2)"
    by (cases "fetchData (pg_exec (Some u) g) user s ?s1 ?db1")
  from fetchData_pg_db [of "Some u" g user s ?s1 ?db1] fd have db2: "db2 = ?db1" by simp
  from calls_fetchData [of "pg_exec (Some u) g" user s ?s1 ?db1] fd
  have sel: "list_all is_select (calls evs)" by simp
  have h: "handleDeleteFolder (pg_exec (Some u) g) user x True s db =
             ([Call ?q, Toast_success ''Folder deleted''] @ evs, s2, ?db1)"
    using x fd db2 by (simp add: handleDeleteFolder_def Let_def)
  have c: "filter (\<lambda>q. \<not> is_select q) (calls ([Call ?q, Toast_success ''Folder deleted''] @ evs)) = [?q]"
    using filter_calls_select [OF sel] by (simp add: calls_Cons_Call calls_Cons_Toast)
  note d = pg_delete_prep_folders [where db = db and f = f and x = x and u = u, OF assms]
  have 1: "?db1 ''prep_folders'' = filter (\<lambda>r. \<not> in_subtree db (Str x) (key_of r)) (db ''prep_folders'')"
    unfolding d by simp
  have 2: "?db1 ''prep_items'' =
             filter (\<lambda>i. \<not> (\<exists>r \<in> set (db ''prep_folders'').
                               in_subtree db (Str x) (key_of r) \<and> column_eq i ''folder_id'' (key_of r)))
                    (db ''prep_items'')"
    unfolding d by simp
  have 3: "\<forall>t. t \<noteq> ''prep_folders'' \<and> t \<noteq> ''prep_items'' \<longrightarrow> ?db1 t = db t"
    unfolding d by simp
  from h c 1 2 3 show ?thesis by blast
qed

lemma example_folders:
  "example_db ''prep_folders'' =
     [folder_row ''A'' ''u1'' Null, folder_row ''B'' ''u1'' (Str ''A''), folder_row ''C'' ''u1'' (Str ''B'')]"
  "example_db ''prep_items'' = [item_row ''x'' ''u1'' ''B'' ''story'']"
  by (simp_all add: example_db_def)

lemma example_keys:
  "key_of (folder_row i u p) = Str i" "key_of (item_row i u f ty) = Str i"
  by (simp_all add: key_of_def folder_row_def item_row_def)

lemma example_subtree_B:
  "\<not> in_subtree example_db (Str ''B'') (Str ''A'')"
  "in_subtree example_db (Str ''B'') (Str ''B'')"
  "in_subtree example_db (Str ''B'') (Str ''C'')"
  by code_simp+

lemma example_item_folder: "column_eq (item_row i u f ty) ''folder_id'' v \<longleftrightarrow> v = Str f"
  by (auto simp: column_eq_def sql_eq_def item_row_def)

lemma example_db_subtree:
  "distinct (map key_of (example_db ''prep_folders''))"
  "map key_of (filter (\<lambda>r. \<not> in_subtree example_db (Str ''B'') (key_of r)) (example_db ''prep_folders'')) =
     [Str ''A'']"
  "map key_of (filter (\<lambda>i. \<not> (\<exists>r \<in> set (example_db ''prep_folders'').
                               in_subtree example_db (Str ''B'') (key_of r) \<and>
                               column_eq i ''folder_id'' (key_of r)))
                    (example_db ''prep_items'')) = []"
  by (simp_all add: example_folders example_keys example_subtree_B example_item_folder)

theorem delete_folder_cascades_witness:
  "distinct (map key_of (example_db ''prep_folders'')) \<and>
   folder_row ''B'' ''u1'' (Str ''A'') \<in> set (example_db ''prep_folders'') \<and>
   folder_row ''B'' ''u1'' (Str ''A'') ''id'' = Some (Str ''B'') \<and>
   folder_row ''B'' ''u1'' (Str ''A'') ''user_id'' = Some (Str ''u1'') \<and>
   (\<exists>evs s' db'.
      handleDeleteFolder (pg_exec (Some ''u1'') gen0) (Some ''u1'') ''B'' True initial_state example_db =
        (evs, s', db') \<and>
      filter (\<lambda>q. \<not> is_select q) (calls evs) = [Delete ''prep_folders'' [(''id'', Str ''B'')]] \<and>
      map key_of (db' ''prep_folders'') = [Str ''A''] \<and>
      map key_of (db' ''prep_items'') = [])"
proof (intro conjI)
  show d: "distinct (map key_of (example_db ''prep_folders''))" by (rule example_db_subtree(1))
  show m: "folder_row ''B'' ''u1'' (Str ''A'') \<in> set (example_db ''prep_folders'')"
    by (simp add: example_folders)
  show i: "folder_row ''B'' ''u1'' (Str ''A'') ''id'' = Some (Str ''B'')"
    by (simp add: folder_row_def)
  show u: "folder_row ''B'' ''u1'' (Str ''A'') ''user_id'' = Some (Str ''u1'')"
    by (simp add: folder_row_def)
  from delete_folder_cascades
         [where db = example_db and f = "folder_row ''B'' ''u1'' (Str ''A'')" and x = "''B''"
            and u = "''u1''" and g = gen0 and user = "Some ''u1''" and s = initial_state,
          OF d m i u]
  show "\<exists>evs s' db'.
      handleDeleteFolder (pg_exec (Some ''u1'') gen0) (Some ''u1'') ''B'' True initial_state example_db =
        (evs, s', db') \<and>
      filter (\<lambda>q. \<not> is_select q) (calls evs) = [Delete ''prep_folders'' [(''id'', Str ''B'')]] \<and>
      map key_of (db' ''prep_folders'') = [Str ''A''] \<and>
      map key_of (db' ''prep_items'') = []"
  proof (elim exE conjE)
    fix evs s' db'
    assume r1: "handleDeleteFolder (pg_exec (Some ''u1'') gen0) (Some ''u1'') ''B'' True initial_state example_db =
        (evs, s', db')"
      and r2: "filter (\<lambda>q. \<not> is_select q) (calls evs) = [Delete ''prep_folders'' [(''id'', Str ''B'')]]"
      and r3: "db' ''prep_folders'' =
         filter (\<lambda>r. \<not> in_subtree example_db (Str ''B'') (key_of r)) (example_db ''prep_folders'')"
      and r4: "db' ''prep_items'' =
         filter (\<lambda>i. \<not> (\<exists>r \<in> set (example_db ''prep_folders'').
                               in_subtree example_db (Str ''B'') (key_of r) \<and>
                               column_eq i ''folder_id'' (key_of r)))
                (example_db ''prep_items'')"
    have 3: "map key_of (db' ''prep_folders'') = [Str ''A'']"
      unfolding r3 by (rule example_db_subtree(2))
    have 4: "map key_of (db' ''prep_items'') = []"
      unfolding r4 by (rule example_db_subtree(3))
    show ?thesis
      by (intro exI [of _ evs] exI [of _ s'] exI [of _ db'] conjI) (rule r1 r2 3 4)+
  qed
qed

end
